theory Spec2Isabelle
  imports Main "HOL-Library.Word" "HOL-Library.Multiset"
begin

unbundle bit_operations_syntax

section \<open>Machine types\<close>

text \<open>
  \<open>uint64_t\<close> and \<open>difficulty_type\<close> are 64-bit words. \<open>size_t\<close> is taken to be
  64 bits wide as well (an LP64 target): the portable \<open>mul\<close> below is the branch compiled
  on every target other than x86-64.
\<close>

type_synonym u64 = "64 word"
type_synonym size_t = "64 word"
type_synonym byte = "8 word"

section \<open>WideMultiply: the portable \<open>mul\<close>\<close>

text \<open>
  The \<open>#else\<close> branch of the source (lines 59--94); on x86-64 the source calls \<open>mul128\<close> of
  common/int-util.h instead, which is not among the sources.
  \<open>mul(a, b, low, high)\<close> writes its two results through references; the model returns
  the pair \<open>(low, high)\<close>. Every local of the source is a 64-bit word, \<open>&\<close> is \<open>AND\<close>,
  \<open>>> 32\<close> is \<open>drop_bit 32\<close>, \<open><< 32\<close> is \<open>push_bit 32\<close> and \<open>|\<close> is \<open>OR\<close>.
\<close>

definition mul :: "u64 \<Rightarrow> u64 \<Rightarrow> u64 \<times> u64" where
  "mul a b =
    (let aLow = a AND 0xFFFFFFFF;
         aHigh = drop_bit 32 a;
         bLow = b AND 0xFFFFFFFF;
         bHigh = drop_bit 32 b;
         res = aLow * bLow;
         lowRes1 = res AND 0xFFFFFFFF;
         carry = drop_bit 32 res;
         res = aHigh * bLow + carry;
         highResHigh1 = drop_bit 32 res;
         highResLow1 = res AND 0xFFFFFFFF;
         res = aLow * bHigh;
         lowRes2 = res AND 0xFFFFFFFF;
         carry = drop_bit 32 res;
         res = aHigh * bHigh + carry;
         highResHigh2 = drop_bit 32 res;
         highResLow2 = res AND 0xFFFFFFFF;
         r = highResLow1 + lowRes2;
         carry = drop_bit 32 r;
         low = push_bit 32 r OR lowRes1;
         r = highResHigh1 + highResLow2 + carry;
         d3 = r AND 0xFFFFFFFF;
         carry = drop_bit 32 r;
         r = highResHigh2 + carry;
         high = d3 OR push_bit 32 r
     in (low, high))"

section \<open>TargetChecker: \<open>check_hash\<close>\<close>

definition cadd :: "u64 \<Rightarrow> u64 \<Rightarrow> bool" where
  "cadd a b = (a + b < a)"

text \<open>\<open>(uint64_t) -1\<close> is the all-ones word.\<close>

definition cadc :: "u64 \<Rightarrow> u64 \<Rightarrow> bool \<Rightarrow> bool" where
  "cadc a b c = (a + b < a \<or> (c \<and> a + b = - 1))"

text \<open>
  A \<open>crypto::hash\<close> is an array of 32 bytes in memory order. \<open>le_val\<close> is the unsigned
  integer that a byte sequence denotes when read little-endian.
\<close>

type_synonym hash = "byte list"

fun le_val :: "byte list \<Rightarrow> nat" where
  "le_val [] = 0"
| "le_val (b # bs) = unat b + 256 * le_val bs"

text \<open>
  Modelled from the spec: \<open>swap64le\<close> (common/int-util.h) and the layout of
  \<open>crypto::hash\<close> (crypto/hash.h) are not among the sources. The expression
  \<open>swap64le(((const uint64_t *) &hash)[i])\<close> reads the eight bytes at offset \<open>8 * i\<close> in host
  order and normalises them from little-endian, so on every host it is the
  little-endian value of bytes \<open>8 * i .. 8 * i + 7\<close>.
\<close>

definition hash_word :: "hash \<Rightarrow> nat \<Rightarrow> u64" where
  "hash_word h i = word_of_nat (le_val (take 8 (drop (8 * i) h)))"

definition check_hash :: "hash \<Rightarrow> u64 \<Rightarrow> bool" where
  "check_hash hash difficulty =
    (let (top, high) = mul (hash_word hash 3) difficulty
     in if high \<noteq> 0 then False
        else
          (let (low, cur) = mul (hash_word hash 0) difficulty;
               (low, high) = mul (hash_word hash 1) difficulty;
               carry = cadd cur low;
               cur = high;
               (low, high) = mul (hash_word hash 2) difficulty;
               carry = cadc cur low carry;
               carry = cadc high top carry
           in \<not> carry))"

section \<open>ClassicWindow: \<open>next_difficulty\<close>\<close>

text \<open>
  A failed \<open>assert\<close> aborts the process, an index outside a vector and a division by zero
  are undefined behaviour: each is a value of \<open>error\<close>, and the functions return
  \<open>error + u64\<close>. The bounds check before the two vectors are indexed (lines 161 and 165) is
  the model's; the source indexes unchecked.
\<close>

datatype error = Assertion_Failed | Out_Of_Range | Division_By_Zero

text \<open>
  The constants of cryptonote_config.h are not among the sources; they are parameters of
  the model, each already converted to \<open>size_t\<close> as the code does with
  \<open>static_cast<size_t>\<close>.
\<close>

record config =
  DIFFICULTY_WINDOW :: size_t
  DIFFICULTY_CUT :: size_t
  DIFFICULTY_WINDOW_ADJUST :: size_t
  DIFFICULTY_CUT_ADJUST :: size_t
  DIFFICULTY_ADJUST_HEIGHT :: size_t

text \<open>\<open>std::vector::resize(n)\<close>: drop the tail, or pad with value-initialised elements.\<close>

definition resize :: "u64 list \<Rightarrow> nat \<Rightarrow> u64 list" where
  "resize xs n = take n xs @ replicate (n - length xs) 0"

text \<open>Lines 125--134: the parameter profile selected by the block height.\<close>

definition difficulty_profile :: "config \<Rightarrow> u64 \<Rightarrow> size_t \<times> size_t" where
  "difficulty_profile cfg height =
    (if height \<ge> DIFFICULTY_ADJUST_HEIGHT cfg
     then (DIFFICULTY_WINDOW_ADJUST cfg, DIFFICULTY_CUT_ADJUST cfg)
     else (DIFFICULTY_WINDOW cfg, DIFFICULTY_CUT cfg))"

text \<open>
  Lines 135--139: both vectors are resized when there are more timestamps than the window
  holds. A vector's size is below \<open>2 ^ 64\<close>, so sizes are compared as natural numbers.
\<close>

definition truncate_series :: "size_t \<Rightarrow> u64 list \<Rightarrow> u64 list \<Rightarrow> u64 list \<times> u64 list" where
  "truncate_series difficulty_window timestamps cumulative_difficulties =
    (if length timestamps > unat difficulty_window
     then (resize timestamps (unat difficulty_window),
           resize cumulative_difficulties (unat difficulty_window))
     else (timestamps, cumulative_difficulties))"

text \<open>Lines 153--159: the cut window \<open>(cut_begin, cut_end)\<close>, in \<open>size_t\<close> arithmetic.\<close>

definition cut_window :: "size_t \<Rightarrow> size_t \<Rightarrow> size_t \<Rightarrow> size_t \<times> size_t" where
  "cut_window difficulty_window difficulty_cut len =
    (if len \<le> difficulty_window - 2 * difficulty_cut then (0, len)
     else (let cut_begin = (len - (difficulty_window - 2 * difficulty_cut) + 1) div 2
           in (cut_begin, cut_begin + (difficulty_window - 2 * difficulty_cut))))"

text \<open>Lines 161--164: the time span over the cut window of the sorted timestamps.\<close>

definition time_span_of :: "u64 list \<Rightarrow> size_t \<Rightarrow> size_t \<Rightarrow> u64" where
  "time_span_of timestamps cut_begin cut_end =
    (let time_span = timestamps ! unat (cut_end - 1) - timestamps ! unat cut_begin
     in if time_span = 0 then 1 else time_span)"

text \<open>Line 165: the work done over the cut window.\<close>

definition total_work_of :: "u64 list \<Rightarrow> size_t \<Rightarrow> size_t \<Rightarrow> u64" where
  "total_work_of cumulative_difficulties cut_begin cut_end =
    cumulative_difficulties ! unat (cut_end - 1) - cumulative_difficulties ! unat cut_begin"

text \<open>Lines 167--174: the scaled ceiling division, 0 when it does not fit 64 bits.\<close>

definition scaled_difficulty :: "u64 \<Rightarrow> size_t \<Rightarrow> u64 \<Rightarrow> u64" where
  "scaled_difficulty total_work target_seconds time_span =
    (let (low, high) = mul total_work target_seconds
     in if high \<noteq> 0 \<or> low + time_span - 1 < low then 0
        else (low + time_span - 1) div time_span)"

definition next_difficulty ::
  "config \<Rightarrow> u64 list \<Rightarrow> u64 list \<Rightarrow> size_t \<Rightarrow> u64 \<Rightarrow> error + u64" where
  "next_difficulty cfg timestamps cumulative_difficulties target_seconds height =
    (let (difficulty_window, difficulty_cut) = difficulty_profile cfg height;
         (timestamps, cumulative_difficulties) =
           truncate_series difficulty_window timestamps cumulative_difficulties;
         len = length timestamps
     in if len \<noteq> length cumulative_difficulties then Inl Assertion_Failed
        else if len \<le> 1 then Inr 1
        else if \<not> difficulty_window \<ge> 2 then Inl Assertion_Failed
        else if \<not> len \<le> unat difficulty_window then Inl Assertion_Failed
        else
          (let timestamps = sort timestamps
           in if \<not> 2 * difficulty_cut \<le> difficulty_window - 2 then Inl Assertion_Failed
              else
                (let (cut_begin, cut_end) =
                       cut_window difficulty_window difficulty_cut (word_of_nat len)
                 in if \<not> (cut_begin + 2 \<le> cut_end \<and> cut_end \<le> word_of_nat len)
                    then Inl Assertion_Failed
                    else if \<not> (unat (cut_end - 1) < len \<and> unat cut_begin < len)
                    then Inl Out_Of_Range
                    else
                      (let time_span = time_span_of timestamps cut_begin cut_end;
                           total_work = total_work_of cumulative_difficulties cut_begin cut_end
                       in if \<not> total_work > 0 then Inl Assertion_Failed
                          else Inr (scaled_difficulty total_work target_seconds time_span)))))"

section \<open>The statistics recorder and \<open>next_difficulty_with_statistics\<close>\<close>

text \<open>
  \<open>BlockchainSQLITEDB::insert_next_difficulty\<close> (src/common/db_sqlite3.cpp). The database is
  the open flag and the rows of \<open>t_next_block_difficulty\<close>; what SQLite answers to
  \<open>BEGIN TRANSACTION\<close>, to \<open>sqlite3_prepare_v2\<close> and to \<open>sqlite3_step\<close> is the environment.
  The result code of \<open>sqlite3_step\<close> is not inspected by the source.
\<close>

record statistics_db =
  m_statistics_open :: bool
  t_next_block_difficulty :: "(u64 \<times> u64 \<times> u64 \<times> u64) list"

record sqlite_env =
  begin_ok :: bool
  prepare_ok :: bool
  step_ok :: bool

definition SQLITE_OK :: int where
  "SQLITE_OK = 0"

definition SQLITE_ERROR :: int where
  "SQLITE_ERROR = 1"

definition insert_next_difficulty ::
  "sqlite_env \<Rightarrow> statistics_db \<Rightarrow> u64 \<Rightarrow> u64 \<Rightarrow> u64 \<Rightarrow> u64 \<Rightarrow> int \<times> statistics_db" where
  "insert_next_difficulty env db blockheight timespan totalwork difficulty =
    (if \<not> m_statistics_open db then (- 1, db)
     else if \<not> begin_ok env then (SQLITE_ERROR, db)
     else if prepare_ok env
     then (SQLITE_OK,
           if step_ok env
           then db\<lparr>t_next_block_difficulty :=
                    t_next_block_difficulty db @ [(blockheight, timespan, totalwork, difficulty)]\<rparr>
           else db)
     else (SQLITE_ERROR, db))"

text \<open>
  \<open>next_difficulty_with_statistics\<close> (lines 177--222) uses \<open>DIFFICULTY_WINDOW\<close> and
  \<open>DIFFICULTY_CUT\<close> directly; its two \<open>static_assert\<close>s are checked by the compiler, not at run
  time. The free function \<open>statistics_tools::insert_next_difficulty\<close> that it calls is not
  among the sources: it is the parameter \<open>recorder\<close>, any function from the recorder's state
  and the four values to a result code and a new state. The result code is discarded, as in
  the source. The model returns the difficulty together with the recorder's final state.
\<close>

definition static_asserts :: "config \<Rightarrow> bool" where
  "static_asserts cfg \<longleftrightarrow>
     2 \<le> unat (DIFFICULTY_WINDOW cfg) \<and>
     2 * unat (DIFFICULTY_CUT cfg) \<le> unat (DIFFICULTY_WINDOW cfg) - 2"

definition next_difficulty_with_statistics ::
  "config \<Rightarrow> ('db \<Rightarrow> u64 \<Rightarrow> u64 \<Rightarrow> u64 \<Rightarrow> u64 \<Rightarrow> int \<times> 'db) \<Rightarrow> 'db \<Rightarrow>
   u64 \<Rightarrow> u64 list \<Rightarrow> u64 list \<Rightarrow> size_t \<Rightarrow> (error + u64) \<times> 'db" where
  "next_difficulty_with_statistics cfg recorder db blockheight timestamps
     cumulative_difficulties target_seconds =
    (let (timestamps, cumulative_difficulties) =
           (if length timestamps > unat (DIFFICULTY_WINDOW cfg)
            then (resize timestamps (unat (DIFFICULTY_WINDOW cfg)),
                  resize cumulative_difficulties (unat (DIFFICULTY_WINDOW cfg)))
            else (timestamps, cumulative_difficulties));
         len = length timestamps
     in if len \<noteq> length cumulative_difficulties then (Inl Assertion_Failed, db)
        else if len \<le> 1 then (Inr 1, db)
        else if \<not> len \<le> unat (DIFFICULTY_WINDOW cfg) then (Inl Assertion_Failed, db)
        else
          (let timestamps = sort timestamps;
               (cut_begin, cut_end) =
                 (if word_of_nat len \<le> DIFFICULTY_WINDOW cfg - 2 * DIFFICULTY_CUT cfg
                  then (0, word_of_nat len)
                  else (let cut_begin =
                              (word_of_nat len - (DIFFICULTY_WINDOW cfg - 2 * DIFFICULTY_CUT cfg) + 1)
                                div 2
                        in (cut_begin, cut_begin + (DIFFICULTY_WINDOW cfg - 2 * DIFFICULTY_CUT cfg))))
           in if \<not> (cut_begin + 2 \<le> cut_end \<and> cut_end \<le> word_of_nat len)
              then (Inl Assertion_Failed, db)
              else if \<not> (unat (cut_end - 1) < len \<and> unat cut_begin < len)
              then (Inl Out_Of_Range, db)
              else
                (let time_span = timestamps ! unat (cut_end - 1) - timestamps ! unat cut_begin;
                     time_span = (if time_span = 0 then 1 else time_span);
                     total_work = cumulative_difficulties ! unat (cut_end - 1)
                                    - cumulative_difficulties ! unat cut_begin
                 in if \<not> total_work > 0 then (Inl Assertion_Failed, db)
                    else
                      (let (low, high) = mul total_work target_seconds
                       in if high \<noteq> 0 \<or> low + time_span - 1 < low then (Inr 0, db)
                          else
                            (let final_difficulty = (low + time_span - 1) div time_span;
                                 (rc, db) = recorder db blockheight time_span total_work
                                              final_difficulty
                             in (Inr final_difficulty, db))))))"

section \<open>LWMA1Window\<close>

text \<open>Lines 258--259: the timestamp used for block \<open>i\<close>, forced past the previous one.\<close>

definition this_timestamp_of :: "u64 \<Rightarrow> u64 \<Rightarrow> u64" where
  "this_timestamp_of previous_timestamp ts_i =
    (if ts_i > previous_timestamp then ts_i else previous_timestamp + 1)"

text \<open>Line 260: the clamped solve time \<open>std::min(6*T, this_timestamp - previous_timestamp)\<close>.\<close>

definition solve_time :: "u64 \<Rightarrow> u64 \<Rightarrow> u64 \<Rightarrow> u64" where
  "solve_time T previous_timestamp this_timestamp =
    min (6 * T) (this_timestamp - previous_timestamp)"

text \<open>
  Lines 256--262: the loop \<open>for (i = 1; i <= N; i++)\<close>. The first argument counts the
  iterations that remain, \<open>unat N\<close> at the start: the caller has checked that the vectors hold
  \<open>N + 1\<close> elements with \<open>N + 1\<close> not wrapped, so \<open>i\<close> runs from 1 to \<open>N\<close> without wrapping.
\<close>

fun lwma_loop :: "nat \<Rightarrow> u64 list \<Rightarrow> u64 \<Rightarrow> u64 \<Rightarrow> u64 \<Rightarrow> u64 \<Rightarrow> u64" where
  "lwma_loop 0 timestamps T i L previous_timestamp = L"
| "lwma_loop (Suc n) timestamps T i L previous_timestamp =
    (let this_timestamp = this_timestamp_of previous_timestamp (timestamps ! unat i);
         L = L + i * solve_time T previous_timestamp this_timestamp
     in lwma_loop n timestamps T (i + 1) L this_timestamp)"

text \<open>Lines 253--263: the weighted sum of solve times and its floor \<open>N*N*T/20\<close>.\<close>

definition lwma_L :: "u64 list \<Rightarrow> u64 \<Rightarrow> u64 \<Rightarrow> u64" where
  "lwma_L timestamps T N =
    (let L = lwma_loop (unat N) timestamps T 1 0 (timestamps ! 0 - T)
     in if L < N * N * T div 20 then N * N * T div 20 else L)"

text \<open>Lines 273--277: the rounding loop, started at \<open>i = 1000000000\<close>.\<close>

function round_digits :: "u64 \<Rightarrow> u64 \<Rightarrow> u64" where
  "round_digits i next_D =
    (if i > 1
     then (if next_D > i * 100 then ((next_D + i div 2) div i) * i
           else round_digits (i div 10) next_D)
     else next_D)"
  by pat_completeness auto
termination
  by (relation "measure (\<lambda>(i, next_D). unat i)")
     (auto simp: word_less_nat_alt unat_div intro!: div_less_dividend)

text \<open>
  \<open>LWMA1_\<close> of the source; an Isabelle name cannot end in an underscore. Once the second assertion
  has passed, an empty \<open>timestamps\<close> means that \<open>N + 1\<close> wrapped to 0, and \<open>timestamps[0]\<close> is
  outside the vector; otherwise every index \<open>0 .. N\<close> is inside both vectors. The divisions by
  \<open>N\<close> and by \<open>200*L\<close> are guarded because the source's are undefined for a zero divisor.
\<close>

definition LWMA1 ::
  "u64 list \<Rightarrow> u64 list \<Rightarrow> u64 \<Rightarrow> u64 \<Rightarrow> u64 \<Rightarrow> u64 \<Rightarrow> u64 \<Rightarrow> error + u64" where
  "LWMA1 timestamps cumulative_difficulties T N height FORK_HEIGHT difficulty_guess =
    (if \<not> (length timestamps = length cumulative_difficulties
            \<and> length timestamps \<le> unat (N + 1))
     then Inl Assertion_Failed
     else if height \<ge> FORK_HEIGHT \<and> height < FORK_HEIGHT + N then Inr difficulty_guess
     else if length timestamps \<noteq> unat (N + 1) then Inl Assertion_Failed
     else if timestamps = [] then Inl Out_Of_Range
     else
       (let L = lwma_L timestamps T N
        in if N = 0 then Inl Division_By_Zero
           else
             (let avg_D = (cumulative_difficulties ! unat N - cumulative_difficulties ! 0) div N
              in if 200 * L = 0 then Inl Division_By_Zero
                 else
                   (let next_D =
                          (if avg_D > 2000000 * N * N * T
                           then (avg_D div (200 * L)) * (N * (N + 1) * T * 99)
                           else (avg_D * N * (N + 1) * T * 99) div (200 * L))
                    in Inr (round_digits 1000000000 next_D)))))"

section \<open>WideMultiply is exact\<close>

lemma prod_lt_sq: "(a::nat) < K \<Longrightarrow> b < K \<Longrightarrow> a * b + K \<le> K * K"
proof -
  assume a: "a < K" and b: "b < K"
  then have "a * b \<le> (K - 1) * (K - 1)" by (intro mult_le_mono) auto
  also have "(K - 1) * (K - 1) + K \<le> K * K" using a
    by (cases K) (auto simp: algebra_simps)
  finally show ?thesis by simp
qed

lemma div_lt_sq: "(x::nat) < K * K \<Longrightarrow> x div K < K"
  by (simp add: less_mult_imp_div_less)

lemma lt_sq: "(aH::nat) < K \<Longrightarrow> aL < K \<Longrightarrow> aH * K + aL < K * K"
proof -
  assume a: "aH < K" and b: "aL < K"
  then have "Suc aH \<le> K" by simp
  then have "Suc aH * K \<le> K * K" by (rule mult_le_mono1)
  then show ?thesis using b by simp
qed

lemma schoolbook:
  fixes aL aH bL bH K :: nat
  assumes K3: "2 < K" and aL: "aL < K" and aH: "aH < K" and bL: "bL < K" and bH: "bH < K"
  assumes r1_def: "r1 = aL * bL"
    and r2_def: "r2 = aH * bL + r1 div K"
    and r3_def: "r3 = aL * bH"
    and r4_def: "r4 = aH * bH + r3 div K"
    and s_def: "s = r2 mod K + r3 mod K"
    and t_def: "t = r2 div K + r4 mod K + s div K"
    and u_def: "u = r4 div K + t div K"
  shows "r1 < K * K" "r2 < K * K" "r3 < K * K" "r4 < K * K" "s < K * K" "t < K * K"
    "u < K"
    "(t mod K + u * K) * (K * K) + ((s mod K) * K + r1 mod K) = (aH * K + aL) * (bH * K + bL)"
proof -
  have K: "0 < K" using K3 by simp
  have "3 * K \<le> K * K" using K3 by (intro mult_le_mono1) simp
  then have KK: "K + K + 1 \<le> K * K" using K3 by linarith
  show r1: "r1 < K * K" using prod_lt_sq [OF aL bL] K by (simp add: r1_def)
  have "r1 div K < K" using r1 by (rule div_lt_sq)
  then show r2: "r2 < K * K" using prod_lt_sq [OF aH bL] by (simp add: r2_def)
  show r3: "r3 < K * K" using prod_lt_sq [OF aL bH] K by (simp add: r3_def)
  have "r3 div K < K" using r3 by (rule div_lt_sq)
  then show r4: "r4 < K * K" using prod_lt_sq [OF aH bH] by (simp add: r4_def)
  have mK: "\<And>x. x mod K < K" using K by simp
  have s2: "s < K + K" unfolding s_def using mK [of r2] mK [of r3] by linarith
  show s: "s < K * K" using s2 KK by linarith
  have "s < 2 * K" using s2 by simp
  then have "s div K < 2" by (rule less_mult_imp_div_less)
  then have sd: "s div K \<le> 1" by simp
  have e1: "r1 = (r1 div K) * K + r1 mod K" by simp
  have e2: "r2 = (r2 div K) * K + r2 mod K" by simp
  have e3: "r3 = (r3 div K) * K + r3 mod K" by simp
  have e4: "r4 = (r4 div K) * K + r4 mod K" by simp
  have es: "s = (s div K) * K + s mod K" by simp
  have et: "t = (t div K) * K + t mod K" by simp
  have total: "(aH * K + aL) * (bH * K + bL) = r4 * (K * K) + r2 * K + (r3 mod K) * K + r1 mod K"
  proof -
    have "(aH * K + aL) * (bH * K + bL) = aH * bH * (K * K) + aH * bL * K + r3 * K + r1"
      by (simp add: r1_def r3_def algebra_simps)
    also have "\<dots> = aH * bH * (K * K) + aH * bL * K + ((r3 div K) * K + r3 mod K) * K + ((r1 div K) * K + r1 mod K)"
      by simp
    also have "\<dots> = r4 * (K * K) + r2 * K + (r3 mod K) * K + r1 mod K"
      unfolding r4_def r2_def by (simp only: algebra_simps)
    finally show ?thesis .
  qed
  have total2: "(aH * K + aL) * (bH * K + bL) = u * (K * K * K) + (t mod K) * (K * K) + (s mod K) * K + r1 mod K"
  proof -
    have "r4 * (K * K) + r2 * K + (r3 mod K) * K + r1 mod K
        = ((r4 div K) * K + r4 mod K) * (K * K) + ((r2 div K) * K + r2 mod K) * K + (r3 mod K) * K + r1 mod K"
      by simp
    also have "\<dots> = (r4 div K) * (K * K * K) + (r2 div K + r4 mod K) * (K * K) + s * K + r1 mod K"
      unfolding s_def by (simp only: algebra_simps)
    also have "\<dots> = (r4 div K) * (K * K * K) + (r2 div K + r4 mod K) * (K * K) + ((s div K) * K + s mod K) * K + r1 mod K"
      by simp
    also have "\<dots> = (r4 div K) * (K * K * K) + t * (K * K) + (s mod K) * K + r1 mod K"
      unfolding t_def by (simp only: algebra_simps)
    also have "\<dots> = (r4 div K) * (K * K * K) + ((t div K) * K + t mod K) * (K * K) + (s mod K) * K + r1 mod K"
      by simp
    also have "\<dots> = u * (K * K * K) + (t mod K) * (K * K) + (s mod K) * K + r1 mod K"
      unfolding u_def by (simp only: algebra_simps)
    finally show ?thesis using total by simp
  qed
  have "r2 div K < K" using r2 by (rule div_lt_sq)
  then have "t < K + K + 1" unfolding t_def using mK [of r4] sd by linarith
  then show t: "t < K * K" using KK by linarith
  have "(aH * K + aL) * (bH * K + bL) < K * K * (K * K)"
  proof -
    have "aH * K + aL < K * K" using aH aL
      by (rule lt_sq)
    moreover have "bH * K + bL < K * K" using bH bL
      by (rule lt_sq)
    ultimately show ?thesis by (rule mult_strict_mono) (use K in auto)
  qed
  then have "u * (K * K * K) + ((t mod K) * (K * K) + (s mod K) * K + r1 mod K) < K * (K * K * K)"
    unfolding total2 by (simp only: ac_simps)
  then have "u * (K * K * K) < K * (K * K * K)" by (rule add_lessD1)
  then show "u < K" using K by simp
  show "(t mod K + u * K) * (K * K) + ((s mod K) * K + r1 mod K) = (aH * K + aL) * (bH * K + bL)"
    unfolding total2 by (simp only: algebra_simps)
qed

lemma and_mask32: "unat ((x::u64) AND 0xFFFFFFFF) = unat x mod 4294967296"
proof -
  have "(0xFFFFFFFF :: u64) = mask 32" by (simp add: mask_eq_exp_minus_1)
  then have "x AND 0xFFFFFFFF = take_bit 32 x" by (simp only: take_bit_eq_mask)
  then show ?thesis by (simp add: take_bit_eq_mod unat_mod)
qed

lemma drop32: "unat (drop_bit 32 (x::u64)) = unat x div 4294967296"
  by (simp add: drop_bit_eq_div unat_div)

lemma shift_mod: "(a * K) mod (K * K) = (a mod K) * (K::nat)"
  by (simp add: mult_mod_left)

lemma push32: "unat (push_bit 32 (x::u64)) = (unat x mod 4294967296) * 4294967296"
  using shift_mod [of "unat x" 4294967296]
  by (simp add: push_bit_eq_mult unat_word_ariths)

lemma or_disj:
  fixes x y :: u64
  assumes "unat y < 4294967296"
  shows "unat (push_bit 32 x OR y) = unat (push_bit 32 x) + unat y"
proof -
  have "y < 2 ^ 32" using assms by (simp add: word_less_nat_alt)
  then have "y AND mask 32 = y" by (rule less_mask_eq)
  then have y: "take_bit 32 y = y" by (simp only: take_bit_eq_mask)
  have "push_bit 32 x AND take_bit 32 y = 0"
    by (rule bit_eqI) (simp add: bit_and_iff bit_push_bit_iff bit_take_bit_iff)
  then have z: "push_bit 32 x AND y = 0" by (simp only: y)
  then have e: "push_bit 32 x OR y = push_bit 32 x + y"
    by (simp only: disjunctive_add_eq_or)
  have "unat x mod 4294967296 < 4294967296" by simp
  then have "unat (push_bit 32 x) + unat y < 2 ^ 64"
    using assms by (simp add: push32)
  then have "unat (push_bit 32 x + y) = unat (push_bit 32 x) + unat y"
    by (simp add: unat_add_lem[THEN iffD1])
  with e show "unat (push_bit 32 x OR y) = unat (push_bit 32 x) + unat y" by simp
qed

lemma unat_mult_small: "unat (x::u64) * unat y < 18446744073709551616 \<Longrightarrow> unat (x * y) = unat x * unat y"
  by (simp add: unat_mult_lem [THEN iffD1])

lemma unat_add_small: "unat (x::u64) + unat y < 18446744073709551616 \<Longrightarrow> unat (x + y) = unat x + unat y"
  by (simp add: unat_add_lem [THEN iffD1])

lemma w_mul: "unat x = p \<Longrightarrow> unat y = q \<Longrightarrow> p * q < 18446744073709551616 \<Longrightarrow> unat (x * y :: u64) = p * q"
  using unat_mult_small [of x y] by simp

lemma w_add: "unat x = p \<Longrightarrow> unat y = q \<Longrightarrow> p + q < 18446744073709551616 \<Longrightarrow> unat (x + y :: u64) = p + q"
  using unat_add_small [of x y] by simp

lemma w_lo: "unat x = p \<Longrightarrow> unat ((x::u64) AND 0xFFFFFFFF) = p mod 4294967296"
  by (simp add: and_mask32)

lemma w_hi: "unat x = p \<Longrightarrow> unat (drop_bit 32 (x::u64)) = p div 4294967296"
  by (simp add: drop32)

lemma mul_exact_aux:
  fixes a b :: u64
  shows "unat (snd (mul a b)) * 18446744073709551616 + unat (fst (mul a b)) = unat a * unat b"
proof -
  define K :: nat where "K = 4294967296"
  define aL aH bL bH where "aL = unat a mod K" and "aH = unat a div K"
    and "bL = unat b mod K" and "bH = unat b div K"
  define r1 where "r1 = aL * bL"
  define r2 where "r2 = aH * bL + r1 div K"
  define r3 where "r3 = aL * bH"
  define r4 where "r4 = aH * bH + r3 div K"
  define s where "s = r2 mod K + r3 mod K"
  define t where "t = r2 div K + r4 mod K + s div K"
  define u where "u = r4 div K + t div K"
  have K3: "2 < K" by (simp add: K_def)
  have KK: "K * K = 18446744073709551616" by (simp add: K_def)
  have a64: "unat a < K * K" using unsigned_less [of a] by (simp add: KK)
  have b64: "unat b < K * K" using unsigned_less [of b] by (simp add: KK)
  have aL: "aL < K" and bL: "bL < K" by (simp_all add: aL_def bL_def K_def)
  have aH: "aH < K" unfolding aH_def using a64 by (rule div_lt_sq)
  have bH: "bH < K" unfolding bH_def using b64 by (rule div_lt_sq)
  note sb = schoolbook [OF K3 aL aH bL bH r1_def r2_def r3_def r4_def s_def t_def u_def]
  note sb' = sb(1-6) [unfolded KK]
  have w_aL: "unat (a AND 0xFFFFFFFF) = aL" unfolding aL_def K_def by (rule w_lo) simp
  have w_bL: "unat (b AND 0xFFFFFFFF) = bL" unfolding bL_def K_def by (rule w_lo) simp
  have w_aH: "unat (drop_bit 32 a) = aH" unfolding aH_def K_def by (rule w_hi) simp
  have w_bH: "unat (drop_bit 32 b) = bH" unfolding bH_def K_def by (rule w_hi) simp
  define res1 where "res1 = (a AND 0xFFFFFFFF) * (b AND 0xFFFFFFFF)"
  have w1: "unat res1 = r1"
    unfolding res1_def r1_def by (rule w_mul [OF w_aL w_bL]) (use sb'(1) in \<open>simp only: r1_def\<close>)
  have w1h: "unat (drop_bit 32 res1) = r1 div K" unfolding K_def by (rule w_hi [OF w1])
  have w1l: "unat (res1 AND 0xFFFFFFFF) = r1 mod K" unfolding K_def by (rule w_lo [OF w1])
  define res2 where "res2 = drop_bit 32 a * (b AND 0xFFFFFFFF) + drop_bit 32 res1"
  have "aH * bL < 18446744073709551616" using sb'(2) unfolding r2_def by (rule add_lessD1)
  then have "unat (drop_bit 32 a * (b AND 0xFFFFFFFF)) = aH * bL"
    by (rule w_mul [OF w_aH w_bL])
  then have w2: "unat res2 = r2"
    unfolding res2_def r2_def by (rule w_add [OF _ w1h]) (use sb'(2) in \<open>simp only: r2_def\<close>)
  have w2h: "unat (drop_bit 32 res2) = r2 div K" unfolding K_def by (rule w_hi [OF w2])
  have w2l: "unat (res2 AND 0xFFFFFFFF) = r2 mod K" unfolding K_def by (rule w_lo [OF w2])
  define res3 where "res3 = (a AND 0xFFFFFFFF) * drop_bit 32 b"
  have w3: "unat res3 = r3"
    unfolding res3_def r3_def by (rule w_mul [OF w_aL w_bH]) (use sb'(3) in \<open>simp only: r3_def\<close>)
  have w3h: "unat (drop_bit 32 res3) = r3 div K" unfolding K_def by (rule w_hi [OF w3])
  have w3l: "unat (res3 AND 0xFFFFFFFF) = r3 mod K" unfolding K_def by (rule w_lo [OF w3])
  define res4 where "res4 = drop_bit 32 a * drop_bit 32 b + drop_bit 32 res3"
  have "aH * bH < 18446744073709551616" using sb'(4) unfolding r4_def by (rule add_lessD1)
  then have "unat (drop_bit 32 a * drop_bit 32 b) = aH * bH"
    by (rule w_mul [OF w_aH w_bH])
  then have w4: "unat res4 = r4"
    unfolding res4_def r4_def by (rule w_add [OF _ w3h]) (use sb'(4) in \<open>simp only: r4_def\<close>)
  have w4h: "unat (drop_bit 32 res4) = r4 div K" unfolding K_def by (rule w_hi [OF w4])
  have w4l: "unat (res4 AND 0xFFFFFFFF) = r4 mod K" unfolding K_def by (rule w_lo [OF w4])
  define rs where "rs = (res2 AND 0xFFFFFFFF) + (res3 AND 0xFFFFFFFF)"
  have ws: "unat rs = s"
    unfolding rs_def s_def by (rule w_add [OF w2l w3l]) (use sb'(5) in \<open>simp only: s_def\<close>)
  have wsh: "unat (drop_bit 32 rs) = s div K" unfolding K_def by (rule w_hi [OF ws])
  define rt where "rt = drop_bit 32 res2 + (res4 AND 0xFFFFFFFF) + drop_bit 32 rs"
  have "r2 div K + r4 mod K < 18446744073709551616" using sb'(6) unfolding t_def by (rule add_lessD1)
  then have "unat (drop_bit 32 res2 + (res4 AND 0xFFFFFFFF)) = r2 div K + r4 mod K"
    by (rule w_add [OF w2h w4l])
  then have wt: "unat rt = t"
    unfolding rt_def t_def by (rule w_add [OF _ wsh]) (use sb'(6) in \<open>simp only: t_def\<close>)
  have wth: "unat (drop_bit 32 rt) = t div K" unfolding K_def by (rule w_hi [OF wt])
  have wtl: "unat (rt AND 0xFFFFFFFF) = t mod K" unfolding K_def by (rule w_lo [OF wt])
  define ru where "ru = drop_bit 32 res4 + drop_bit 32 rt"
  have uK: "u < 4294967296" using sb(7) by (simp only: K_def)
  have wu: "unat ru = u"
    unfolding ru_def u_def by (rule w_add [OF w4h wth]) (use uK in \<open>simp add: u_def\<close>)
  have m: "mul a b = (push_bit 32 rs OR (res1 AND 0xFFFFFFFF), (rt AND 0xFFFFFFFF) OR push_bit 32 ru)"
    by (simp only: mul_def Let_def res1_def res2_def res3_def res4_def rs_def rt_def ru_def)
  have l1: "unat (res1 AND 0xFFFFFFFF) < 4294967296" by (simp add: w1l K_def)
  have l2: "unat (rt AND 0xFFFFFFFF) < 4294967296" by (simp add: wtl K_def)
  have lo: "unat (fst (mul a b)) = (s mod K) * K + r1 mod K"
    by (simp only: m fst_conv or_disj [OF l1] push32 ws w1l K_def)
  have "u mod 4294967296 = u" using uK by simp
  then have hi: "unat (snd (mul a b)) = t mod K + u * K"
    by (simp only: m snd_conv or.commute [of "rt AND 0xFFFFFFFF"] or_disj [OF l2] push32 wtl wu K_def add.commute)
  have "(aH * K + aL) * (bH * K + bL) = unat a * unat b"
    by (simp add: aH_def aL_def bH_def bL_def)
  with sb(8) have "(t mod K + u * K) * (K * K) + ((s mod K) * K + r1 mod K) = unat a * unat b"
    by simp
  then show ?thesis by (simp only: lo hi KK)
qed

text \<open>
  C2. For all 64-bit \<open>a\<close> and \<open>b\<close>, the portable four-limb \<open>mul\<close> returns \<open>(low, high)\<close> with
  \<open>high * 2^64 + low\<close> equal to the exact product of \<open>a\<close> and \<open>b\<close> as natural numbers.
\<close>

theorem mul_exact:
  "unat (snd (mul a b)) * 2 ^ 64 + unat (fst (mul a b)) = unat a * unat b"
  using mul_exact_aux [of a b] by simp

section \<open>TargetChecker decides \<open>hash * difficulty < 2^256\<close>\<close>

lemma cadd_iff: "cadd a b \<longleftrightarrow> 18446744073709551616 \<le> unat a + unat b"
proof -
  have "a \<le> a + b \<longleftrightarrow> unat a + unat b < 2 ^ 64"
    using no_olen_add_nat [of a b] by simp
  then show ?thesis by (auto simp: cadd_def not_le [symmetric])
qed

lemma cadc_iff: "cadc a b c \<longleftrightarrow> 18446744073709551616 \<le> unat a + unat b + (if c then 1 else 0)"
proof (cases "unat a + unat b < 18446744073709551616")
  case True
  then have u: "unat (a + b) = unat a + unat b" by (rule unat_add_small)
  have "\<not> cadd a b" using True by (simp add: cadd_iff)
  then have n: "\<not> a + b < a" by (simp add: cadd_def)
  have "a + b = - 1 \<longleftrightarrow> unat (a + b) = unat (- 1 :: u64)"
    by (simp only: unsigned_word_eqI word_unat_eq_iff)
  also have "\<dots> \<longleftrightarrow> unat a + unat b = 18446744073709551615"
    by (simp add: u unsigned_minus_1_eq_mask mask_eq_exp_minus_1)
  finally show ?thesis using True n by (auto simp: cadc_def)
next
  case False
  then have "cadd a b" by (simp add: cadd_iff)
  then show ?thesis using False by (simp add: cadc_def cadd_def)
qed

lemma le_val_append: "le_val (xs @ ys) = le_val xs + 256 ^ length xs * le_val ys"
  by (induction xs) (simp_all add: algebra_simps)

lemma le_val_bound: "le_val xs < 256 ^ length xs"
proof (induction xs)
  case Nil
  show ?case by simp
next
  case (Cons b bs)
  have "unat b < 256" using unsigned_less [of b] by simp
  then have "unat b + 256 * le_val bs < 256 * Suc (le_val bs)" by simp
  also have "\<dots> \<le> 256 * 256 ^ length bs" using Cons.IH by (intro mult_le_mono2) simp
  finally show ?case by simp
qed

lemma le_val_split: "le_val xs = le_val (take n xs) + 256 ^ min (length xs) n * le_val (drop n xs)"
  using le_val_append [of "take n xs" "drop n xs"] by simp

lemma unat_hash_word:
  "unat (hash_word h i) = le_val (take 8 (drop (8 * i) h))"
proof -
  have "le_val (take 8 (drop (8 * i) h)) < 256 ^ length (take 8 (drop (8 * i) h))"
    by (rule le_val_bound)
  also have "\<dots> \<le> 256 ^ 8" by (intro power_increasing) simp_all
  finally have "le_val (take 8 (drop (8 * i) h)) < 2 ^ 64" by simp
  then show ?thesis by (simp add: hash_word_def unat_of_nat)
qed

lemma le_val_hash:
  assumes "length h = 32"
  shows "le_val h = unat (hash_word h 0) + 18446744073709551616 * (unat (hash_word h 1)
           + 18446744073709551616 * (unat (hash_word h 2) + 18446744073709551616 * unat (hash_word h 3)))"
proof -
  have a: "le_val h = le_val (take 8 h) + 256 ^ 8 * le_val (drop 8 h)"
    using le_val_split [of h 8] assms by simp
  have b: "le_val (drop 8 h) = le_val (take 8 (drop 8 h)) + 256 ^ 8 * le_val (drop 16 h)"
    using le_val_split [of "drop 8 h" 8] assms by simp
  have c: "le_val (drop 16 h) = le_val (take 8 (drop 16 h)) + 256 ^ 8 * le_val (drop 24 h)"
    using le_val_split [of "drop 16 h" 8] assms by simp
  have d: "drop 24 h = take 8 (drop 24 h)" using assms by simp
  show ?thesis
    unfolding unat_hash_word using a b c d by simp
qed

lemma carry_split:
  fixes B x :: nat
  assumes "x < 2 * B"
  obtains m where "m < B" and "x = m + (if B \<le> x then 1 else 0) * B"
proof (cases "B \<le> x")
  case True
  then have "x - B < B" and "x = (x - B) + (if B \<le> x then 1 else 0) * B" using assms by simp_all
  then show ?thesis by (rule that)
next
  case False
  then have "x < B" and "x = x + (if B \<le> x then 1 else 0) * B" by simp_all
  then show ?thesis by (rule that)
qed

lemma carry_chain:
  fixes B :: nat
  assumes L0: "L0 < B" and H0: "H0 < B" and L1: "L1 < B" and H1: "H1 < B"
    and L2: "L2 < B" and H2: "H2 < B" and L3: "L3 < B"
  defines "c1 \<equiv> (if B \<le> H0 + L1 then 1 else 0 :: nat)"
  defines "c2 \<equiv> (if B \<le> H1 + L2 + c1 then 1 else 0 :: nat)"
  shows "L0 + (H0 + L1) * B + (H1 + L2) * (B * B) + (H2 + L3) * (B * B * B) < B * (B * B * B)
         \<longleftrightarrow> H2 + L3 + c2 < B"
proof -
  have "H0 + L1 < 2 * B" using H0 L1 by simp
  then obtain m1 where m1: "m1 < B" and e1: "H0 + L1 = m1 + c1 * B"
    unfolding c1_def by (rule carry_split)
  have "c1 \<le> 1" by (simp add: c1_def)
  then have "H1 + L2 + c1 < 2 * B" using H1 L2 by simp
  then obtain m2 where m2: "m2 < B" and e2: "H1 + L2 + c1 = m2 + c2 * B"
    unfolding c2_def by (rule carry_split)
  define r where "r = L0 + m1 * B + m2 * (B * B)"
  define s3 where "s3 = H2 + L3 + c2"
  have "L0 + (H0 + L1) * B + (H1 + L2) * (B * B) + (H2 + L3) * (B * B * B)
      = L0 + (m1 + c1 * B) * B + (H1 + L2) * (B * B) + (H2 + L3) * (B * B * B)"
    by (simp only: e1)
  also have "\<dots> = L0 + m1 * B + (H1 + L2 + c1) * (B * B) + (H2 + L3) * (B * B * B)"
    by (simp only: algebra_simps)
  also have "\<dots> = L0 + m1 * B + (m2 + c2 * B) * (B * B) + (H2 + L3) * (B * B * B)"
    by (simp only: e2)
  also have "\<dots> = r + s3 * (B * B * B)"
    unfolding r_def s3_def by (simp only: algebra_simps)
  finally have P: "L0 + (H0 + L1) * B + (H1 + L2) * (B * B) + (H2 + L3) * (B * B * B)
      = r + s3 * (B * B * B)" .
  have "m1 * B + L0 < B * B" using m1 L0 by (rule lt_sq)
  moreover have "Suc m2 * (B * B) \<le> B * (B * B)" using m2 by (intro mult_le_mono1) simp
  ultimately have r: "r < B * B * B" unfolding r_def by simp
  have "r + s3 * (B * B * B) < B * (B * B * B) \<longleftrightarrow> s3 < B"
  proof
    assume "r + s3 * (B * B * B) < B * (B * B * B)"
    then have "s3 * (B * B * B) < B * (B * B * B)" by (rule add_lessD1 [OF ord_eq_less_trans [OF add.commute]])
    then show "s3 < B" by (rule mult_less_cancel2 [THEN iffD1, THEN conjunct2])
  next
    assume "s3 < B"
    then have "Suc s3 * (B * B * B) \<le> B * (B * B * B)" by (intro mult_le_mono1) simp
    then show "r + s3 * (B * B * B) < B * (B * B * B)" using r by simp
  qed
  then show ?thesis unfolding P s3_def .
qed

lemma mul_pair:
  obtains lo hi where "mul a b = (lo, hi)" and "unat a * unat b = unat hi * 18446744073709551616 + unat lo"
  using mul_exact_aux [of a b] by (cases "mul a b") (simp add: that)

text \<open>
  C1. For every 32-byte hash and every 64-bit difficulty, \<open>check_hash\<close> is true exactly when
  the little-endian 256-bit value of the hash times the difficulty, computed over the
  natural numbers, is strictly below \<open>2^256\<close>.
\<close>

theorem check_hash_correct:
  assumes len: "length hash = 32"
  shows "check_hash hash difficulty \<longleftrightarrow> le_val hash * unat difficulty < 2 ^ 256"
proof -
  define B :: nat where "B = 18446744073709551616"
  define d where "d = unat difficulty"
  obtain L3 H3 where m3: "mul (hash_word hash 3) difficulty = (L3, H3)"
    and p3: "unat (hash_word hash 3) * d = unat H3 * B + unat L3"
    unfolding d_def B_def by (rule mul_pair)
  obtain L0 H0 where m0: "mul (hash_word hash 0) difficulty = (L0, H0)"
    and p0: "unat (hash_word hash 0) * d = unat H0 * B + unat L0"
    unfolding d_def B_def by (rule mul_pair)
  obtain L1 H1 where m1: "mul (hash_word hash 1) difficulty = (L1, H1)"
    and p1: "unat (hash_word hash 1) * d = unat H1 * B + unat L1"
    unfolding d_def B_def by (rule mul_pair)
  obtain L2 H2 where m2: "mul (hash_word hash 2) difficulty = (L2, H2)"
    and p2: "unat (hash_word hash 2) * d = unat H2 * B + unat L2"
    unfolding d_def B_def by (rule mul_pair)
  have lt: "unat w < B" for w :: u64 unfolding B_def using unsigned_less [of w] by simp
  have B4: "(2::nat) ^ 256 = B * (B * B * B)" by (simp add: B_def)
  have "le_val hash * d = unat (hash_word hash 0) * d + B * (unat (hash_word hash 1) * d
           + B * (unat (hash_word hash 2) * d + B * (unat (hash_word hash 3) * d)))"
    unfolding le_val_hash [OF len] B_def by (simp only: algebra_simps)
  also have "\<dots> = unat L0 + (unat H0 + unat L1) * B + (unat H1 + unat L2) * (B * B)
           + (unat H2 + unat L3) * (B * B * B) + unat H3 * (B * (B * B * B))"
    unfolding p0 p1 p2 p3 by (simp only: algebra_simps)
  finally have P: "le_val hash * d = unat L0 + (unat H0 + unat L1) * B + (unat H1 + unat L2) * (B * B)
           + (unat H2 + unat L3) * (B * B * B) + unat H3 * (B * (B * B * B))" .
  show ?thesis
  proof (cases "H3 = 0")
    case False
    then have "1 \<le> unat H3" by (simp add: unat_gt_0 Suc_leI)
    then have "1 * (B * (B * B * B)) \<le> unat H3 * (B * (B * B * B))" by (rule mult_le_mono1)
    then have "B * (B * B * B) \<le> unat H3 * (B * (B * B * B))" by (simp only: mult_1)
    then have "B * (B * B * B) \<le> le_val hash * d" unfolding P by (rule trans_le_add2)
    then have "\<not> le_val hash * d < B * (B * B * B)" by (simp only: not_less)
    moreover have "\<not> check_hash hash difficulty"
      unfolding check_hash_def m3 Let_def prod.case using False by simp
    ultimately show ?thesis unfolding B4 d_def by blast
  next
    case True
    define c1 :: nat where "c1 = (if B \<le> unat H0 + unat L1 then 1 else 0)"
    define c2 :: nat where "c2 = (if B \<le> unat H1 + unat L2 + c1 then 1 else 0)"
    have k1: "(if cadd H0 L1 then 1 else 0 :: nat) = c1"
      by (simp only: cadd_iff c1_def B_def)
    have "cadc H1 L2 (cadd H0 L1) \<longleftrightarrow> B \<le> unat H1 + unat L2 + c1"
      by (simp only: cadc_iff [of H1 L2 "cadd H0 L1"] k1 B_def)
    then have k2: "(if cadc H1 L2 (cadd H0 L1) then 1 else 0 :: nat) = c2"
      by (simp only: c2_def)
    have k3: "cadc H2 L3 (cadc H1 L2 (cadd H0 L1)) \<longleftrightarrow> B \<le> unat H2 + unat L3 + c2"
      by (simp only: cadc_iff [of H2 L3 "cadc H1 L2 (cadd H0 L1)"] k2 B_def)
    have "check_hash hash difficulty \<longleftrightarrow> \<not> cadc H2 L3 (cadc H1 L2 (cadd H0 L1))"
      unfolding check_hash_def m0 m1 m2 m3 Let_def prod.case using True by simp
    also have "\<dots> \<longleftrightarrow> unat H2 + unat L3 + c2 < B" by (simp add: k3 not_le)
    also have "\<dots> \<longleftrightarrow> unat L0 + (unat H0 + unat L1) * B + (unat H1 + unat L2) * (B * B)
           + (unat H2 + unat L3) * (B * B * B) < B * (B * B * B)"
      unfolding c2_def c1_def
      by (rule carry_chain [OF lt lt lt lt lt lt lt, symmetric])
    also have "\<dots> \<longleftrightarrow> le_val hash * d < B * (B * B * B)"
      unfolding P using True by simp
    finally show ?thesis unfolding B4 d_def .
  qed
qed

theorem check_hash_correct_witness:
  "length [0, 0, 0, 0, 0, 0, 0, 0, 0, 0, 0, 0, 0, 0, 0, 0,
           0, 0, 0, 0, 0, 0, 0, 0, 0, 0, 0, 0, 0, 0, 0, 128 :: byte] = 32
   \<and> le_val [0, 0, 0, 0, 0, 0, 0, 0, 0, 0, 0, 0, 0, 0, 0, 0,
              0, 0, 0, 0, 0, 0, 0, 0, 0, 0, 0, 0, 0, 0, 0, 128] * unat (2 :: u64) = 2 ^ 256
   \<and> \<not> check_hash [0, 0, 0, 0, 0, 0, 0, 0, 0, 0, 0, 0, 0, 0, 0, 0,
                      0, 0, 0, 0, 0, 0, 0, 0, 0, 0, 0, 0, 0, 0, 0, 128] 2"
  using check_hash_correct [of "[0, 0, 0, 0, 0, 0, 0, 0, 0, 0, 0, 0, 0, 0, 0, 0,
           0, 0, 0, 0, 0, 0, 0, 0, 0, 0, 0, 0, 0, 0, 0, 128]" 2]
  by simp

section \<open>The rounding step of LWMA1 is idempotent\<close>

lemma pow10_bound: "j \<le> 9 \<Longrightarrow> (10::nat) ^ j \<le> 1000000000"
  using power_increasing [of j 9 "10::nat"] by simp

lemma unat_pow10: "j \<le> 9 \<Longrightarrow> unat ((10::u64) ^ j) = 10 ^ j"
proof -
  assume j: "j \<le> 9"
  have e: "(10::u64) ^ j = word_of_nat (10 ^ j)" by simp
  have "(10::nat) ^ j < 2 ^ 64" using pow10_bound [OF j] by simp
  then have "unat (word_of_nat (10 ^ j) :: u64) = 10 ^ j" by (simp only: unat_of_nat) simp
  then show ?thesis by (simp only: e)
qed

text \<open>The rounded value at scale \<open>10 ^ m\<close>, as a natural number.\<close>

lemma unat_round_at:
  assumes m: "m \<le> 9"
  shows "unat (((y + (10::u64) ^ m div 2) div 10 ^ m) * 10 ^ m)
         = ((unat y + 10 ^ m div 2) mod 18446744073709551616 div 10 ^ m) * 10 ^ m"
proof -
  have "unat (2::u64) = 2" by simp
  then have h: "unat ((10::u64) ^ m div 2) = 10 ^ m div 2"
    by (simp only: unat_div unat_pow10 [OF m])
  have a: "unat (y + (10::u64) ^ m div 2) = (unat y + 10 ^ m div 2) mod 18446744073709551616"
    by (simp only: unat_word_ariths(1) h) simp
  have d: "unat ((y + (10::u64) ^ m div 2) div 10 ^ m)
         = (unat y + 10 ^ m div 2) mod 18446744073709551616 div 10 ^ m"
    by (simp only: unat_div a unat_pow10 [OF m])
  have "(unat y + 10 ^ m div 2) mod 18446744073709551616 div 10 ^ m * 10 ^ m
          \<le> (unat y + 10 ^ m div 2) mod 18446744073709551616"
    by simp
  also have "\<dots> < 18446744073709551616" by simp
  finally show ?thesis
    by (simp only: unat_mult_small d unat_pow10 [OF m])
qed

lemma round_fix_nat: "t dvd X \<Longrightarrow> h < t \<Longrightarrow> (X + h) div t * t = (X::nat)"
  by (auto simp: dvd_def)

lemma round_fix:
  assumes m: "m \<le> 9" and dvd: "10 ^ m dvd unat y" and nowrap: "unat y + 10 ^ m div 2 < 18446744073709551616"
  shows "((y + (10::u64) ^ m div 2) div 10 ^ m) * 10 ^ m = y"
proof -
  have "(10::nat) ^ m div 2 < 10 ^ m" by simp
  with dvd have "(unat y + 10 ^ m div 2) div 10 ^ m * 10 ^ m = unat y" by (rule round_fix_nat)
  then have "unat (((y + (10::u64) ^ m div 2) div 10 ^ m) * 10 ^ m) = unat y"
    using nowrap by (simp add: unat_round_at [OF m])
  then show ?thesis by (simp only: word_unat_eq_iff)
qed

lemma scale_gt: "j \<le> 9 \<Longrightarrow> (y > (10::u64) ^ j * 100) \<longleftrightarrow> 100 * 10 ^ j < unat y"
proof -
  assume j: "j \<le> 9"
  have "(10::nat) ^ j * 100 < 18446744073709551616" using pow10_bound [OF j] by simp
  then have "unat ((10::u64) ^ j * 100) = 10 ^ j * 100"
    using w_mul [OF unat_pow10 [OF j], of 100 100] by simp
  then show ?thesis by (simp add: word_less_nat_alt mult.commute)
qed

lemma round_digits_Suc:
  assumes "Suc j \<le> 9"
  shows "round_digits (10 ^ Suc j) y =
     (if 100 * 10 ^ Suc j < unat y then ((y + 10 ^ Suc j div 2) div 10 ^ Suc j) * 10 ^ Suc j
      else round_digits (10 ^ j) y)"
proof -
  have j: "j \<le> 9" using assms by simp
  have "unat ((10::u64) ^ Suc j) = 10 ^ Suc j" using assms by (rule unat_pow10)
  moreover have "(1::nat) < 10 ^ Suc j" by (rule one_less_power) simp_all
  ultimately have "1 < unat ((10::u64) ^ Suc j)" by (simp only:)
  then have gt: "(10::u64) ^ Suc j > 1" by (simp add: word_less_nat_alt)
  have "unat ((10::u64) ^ Suc j div 10) = unat ((10::u64) ^ j)"
    by (simp only: unat_div unat_pow10 [OF assms] unat_pow10 [OF j]) simp
  then have d: "(10::u64) ^ Suc j div 10 = 10 ^ j" by (simp only: word_unat_eq_iff)
  show ?thesis
    by (subst round_digits.simps) (simp only: gt if_True d scale_gt [OF assms])
qed

lemma round_digits_0: "round_digits (10 ^ 0) y = y"
  by (subst round_digits.simps) simp

text \<open>A value on which no qualifying scale changes anything is a fixed point.\<close>

lemma round_digits_stable:
  assumes "j \<le> 9"
    and "\<And>m. 1 \<le> m \<Longrightarrow> m \<le> j \<Longrightarrow> 100 * 10 ^ m < unat y \<Longrightarrow>
           10 ^ m dvd unat y \<and> unat y + 10 ^ m div 2 < 18446744073709551616"
  shows "round_digits (10 ^ j) y = y"
  using assms
proof (induction j)
  case 0
  show ?case by (rule round_digits_0)
next
  case (Suc j)
  show ?case
  proof (cases "100 * 10 ^ Suc j < unat y")
    case True
    then have "10 ^ Suc j dvd unat y \<and> unat y + 10 ^ Suc j div 2 < 18446744073709551616"
      using Suc.prems(2) [of "Suc j"] by simp
    then have "((y + (10::u64) ^ Suc j div 2) div 10 ^ Suc j) * 10 ^ Suc j = y"
      using round_fix [OF Suc.prems(1)] by blast
    then show ?thesis using True by (simp only: round_digits_Suc [OF Suc.prems(1)] if_True)
  next
    case False
    have "round_digits (10 ^ j) y = y"
      using Suc.prems by (intro Suc.IH) auto
    then show ?thesis using False by (simp only: round_digits_Suc [OF Suc.prems(1)] if_False)
  qed
qed

text \<open>What the loop returns: the input, or the input rounded at the first qualifying scale.\<close>

lemma round_digits_cases:
  assumes "j \<le> 9"
  shows "round_digits (10 ^ j) x = x \<or>
         (\<exists>m. 1 \<le> m \<and> m \<le> j \<and> 100 * 10 ^ m < unat x \<and>
              (\<forall>m'. m < m' \<and> m' \<le> j \<longrightarrow> unat x \<le> 100 * 10 ^ m') \<and>
              round_digits (10 ^ j) x = ((x + 10 ^ m div 2) div 10 ^ m) * 10 ^ m)"
  using assms
proof (induction j)
  case 0
  show ?case using round_digits_0 by blast
next
  case (Suc j)
  show ?case
  proof (cases "100 * 10 ^ Suc j < unat x")
    case True
    then have "round_digits (10 ^ Suc j) x = ((x + 10 ^ Suc j div 2) div 10 ^ Suc j) * 10 ^ Suc j"
      by (simp only: round_digits_Suc [OF Suc.prems] if_True)
    with True show ?thesis by (intro disjI2 exI [of _ "Suc j"]) auto
  next
    case False
    then have e: "round_digits (10 ^ Suc j) x = round_digits (10 ^ j) x"
      by (simp only: round_digits_Suc [OF Suc.prems] if_False)
    have "j \<le> 9" using Suc.prems by simp
    from Suc.IH [OF this] show ?thesis
    proof
      assume "round_digits (10 ^ j) x = x"
      then show ?thesis using e by simp
    next
      assume "\<exists>m. 1 \<le> m \<and> m \<le> j \<and> 100 * 10 ^ m < unat x \<and>
              (\<forall>m'. m < m' \<and> m' \<le> j \<longrightarrow> unat x \<le> 100 * 10 ^ m') \<and>
              round_digits (10 ^ j) x = ((x + 10 ^ m div 2) div 10 ^ m) * 10 ^ m"
      then obtain m where m: "1 \<le> m" "m \<le> j" "100 * 10 ^ m < unat x"
        "\<forall>m'. m < m' \<and> m' \<le> j \<longrightarrow> unat x \<le> 100 * 10 ^ m'"
        "round_digits (10 ^ j) x = ((x + 10 ^ m div 2) div 10 ^ m) * 10 ^ m" by blast
      have "\<forall>m'. m < m' \<and> m' \<le> Suc j \<longrightarrow> unat x \<le> 100 * 10 ^ m'"
        using m(4) False by (auto simp: le_Suc_eq not_less)
      with m e show ?thesis by (intro disjI2 exI [of _ m]) auto
    qed
  qed
qed

lemma pow10_lt_cancel: "(100::nat) * 10 ^ a < 1000 * 10 ^ b \<Longrightarrow> a \<le> b"
proof -
  assume "(100::nat) * 10 ^ a < 1000 * 10 ^ b"
  then have "(10::nat) ^ (a + 2) < 10 ^ (b + 3)" by (simp add: power_add)
  then have "a + 2 < b + 3" by (simp only: power_strict_increasing_iff [of 10])
  then show ?thesis by simp
qed

lemma mult_1e9_nowrap:
  assumes "(1000000000::nat) dvd Y" and "Y < 18446744073709551616"
  shows "Y + 500000000 < 18446744073709551616"
proof -
  obtain q where q: "Y = 1000000000 * q" using assms(1) by (auto simp: dvd_def)
  have "q < 18446744074" using assms(2) unfolding q by simp
  then have "q \<le> 18446744073" by simp
  then show ?thesis unfolding q by simp
qed

lemma rounded_stable:
  assumes m: "1 \<le> m" "m \<le> 9" and gt: "100 * 10 ^ m < unat x"
    and hi: "\<forall>m'. m < m' \<and> m' \<le> 9 \<longrightarrow> unat x \<le> 100 * 10 ^ m'"
  defines "y \<equiv> ((x + (10::u64) ^ m div 2) div 10 ^ m) * 10 ^ m"
  shows "round_digits (10 ^ 9) y = y"
proof (rule round_digits_stable)
  show "(9::nat) \<le> 9" by simp
next
  fix k :: nat
  assume k: "1 \<le> k" "k \<le> 9" and big: "100 * 10 ^ k < unat y"
  have uy: "unat y = ((unat x + 10 ^ m div 2) mod 18446744073709551616 div 10 ^ m) * 10 ^ m"
    unfolding y_def by (rule unat_round_at [OF m(2)])
  then have dv: "10 ^ m dvd unat y" by simp
  have half: "(10::nat) ^ k div 2 \<le> 500000000" using pow10_bound [OF k(2)] by simp
  show "10 ^ k dvd unat y \<and> unat y + 10 ^ k div 2 < 18446744073709551616"
  proof (cases "m = 9")
    case True
    have "(10::nat) ^ k dvd 10 ^ m" using k(2) True by (intro le_imp_power_dvd) simp
    then have d: "10 ^ k dvd unat y" using dv by (rule dvd_trans)
    have "(1000000000::nat) dvd unat y" using dv True by simp
    moreover have "unat y < 18446744073709551616" using unsigned_less [of y] by simp
    ultimately have "unat y + 500000000 < 18446744073709551616" by (rule mult_1e9_nowrap)
    with d half show ?thesis by simp
  next
    case False
    then have "m < Suc m \<and> Suc m \<le> 9" using m(2) by simp
    then have xle: "unat x \<le> 100 * 10 ^ Suc m" using hi by blast
    have p: "(10::nat) ^ m \<le> 1000000000" using m(2) by (rule pow10_bound)
    have "(10::nat) ^ Suc m \<le> 1000000000" by (rule pow10_bound) (use m(2) False in simp)
    then have "unat x + 10 ^ m div 2 < 18446744073709551616" using xle p by simp
    then have uy': "unat y = ((unat x + 10 ^ m div 2) div 10 ^ m) * 10 ^ m"
      by (simp add: uy)
    have "(10::nat) ^ m div 2 < 10 ^ m" by simp
    moreover have "unat x \<le> 1000 * 10 ^ m" using xle by simp
    ultimately have "unat x + 10 ^ m div 2 < 1001 * 10 ^ m" by linarith
    then have "(unat x + 10 ^ m div 2) div 10 ^ m < 1001" by (rule less_mult_imp_div_less)
    then have "(unat x + 10 ^ m div 2) div 10 ^ m \<le> 1000" by simp
    then have yle: "unat y \<le> 1000 * 10 ^ m" unfolding uy' by (rule mult_le_mono1)
    then have "(100::nat) * 10 ^ k < 1000 * 10 ^ m" using big by simp
    then have "k \<le> m" by (rule pow10_lt_cancel)
    then have "(10::nat) ^ k dvd 10 ^ m" by (rule le_imp_power_dvd)
    then have d: "10 ^ k dvd unat y" using dv by (rule dvd_trans)
    have "unat y \<le> 1000 * 1000000000" using yle p by simp
    with d half show ?thesis by simp
  qed
qed

text \<open>
  C9. The digit-rounding step of LWMA1, started at the scale \<open>10^9\<close> as in the source, is
  idempotent on every 64-bit value.
\<close>

theorem round_digits_idempotent:
  "round_digits 1000000000 (round_digits 1000000000 x) = round_digits 1000000000 x"
proof -
  have e: "(1000000000::u64) = 10 ^ 9" by simp
  have "round_digits (10 ^ 9) (round_digits (10 ^ 9) x) = round_digits (10 ^ 9) x"
    using round_digits_cases [of 9 x, OF order_refl]
  proof (elim disjE exE conjE)
    assume "round_digits (10 ^ 9) x = x"
    then show ?thesis by simp
  next
    fix m
    assume "1 \<le> m" "m \<le> 9" "100 * 10 ^ m < unat x"
      "\<forall>m'. m < m' \<and> m' \<le> 9 \<longrightarrow> unat x \<le> 100 * 10 ^ m'"
      and r: "round_digits (10 ^ 9) x = ((x + 10 ^ m div 2) div 10 ^ m) * 10 ^ m"
    then have "round_digits (10 ^ 9) (((x + 10 ^ m div 2) div 10 ^ m) * 10 ^ m)
        = ((x + 10 ^ m div 2) div 10 ^ m) * 10 ^ m"
      by (intro rounded_stable)
    then show ?thesis by (simp only: r)
  qed
  then show ?thesis by (simp only: e)
qed

section \<open>ClassicWindow: the scaled division and its overflow signal\<close>

lemma unat_of_nat_small: "n < 18446744073709551616 \<Longrightarrow> unat (word_of_nat n :: u64) = n"
  by (simp add: unat_of_nat)

lemma length_resize: "length (resize xs n) = n"
  by (simp add: resize_def)

lemma truncate_series_lengths:
  assumes "truncate_series W timestamps cumulative_difficulties = (ts, cds)"
    and "length timestamps = length cumulative_difficulties"
  shows "length cds = length ts" and "length ts \<le> unat W"
  using assms by (auto simp: truncate_series_def length_resize split: if_splits)

text \<open>The cut window over the natural numbers, when the profile satisfies the assertions.\<close>

lemma cut_window_nat:
  fixes W C :: size_t and n :: nat
  assumes W: "2 \<le> unat W" and C: "2 * unat C \<le> unat W - 2" and n: "2 \<le> n" "n \<le> unat W"
  defines "D \<equiv> unat W - 2 * unat C"
  defines "b \<equiv> (if n \<le> D then 0 else (n - D + 1) div 2)"
  defines "e \<equiv> (if n \<le> D then n else (n - D + 1) div 2 + D)"
  shows "cut_window W C (word_of_nat n) = (word_of_nat b, word_of_nat e)"
    and "b + 2 \<le> e" and "e \<le> n"
proof -
  have W64: "unat W < 18446744073709551616" using unsigned_less [of W] by simp
  have n64: "n < 18446744073709551616" using n W64 by simp
  have un: "unat (word_of_nat n :: u64) = n" using n64 by (rule unat_of_nat_small)
  have "unat (2::u64) * unat C < 18446744073709551616" using C W64 by simp
  then have u2C: "unat (2 * C) = 2 * unat C" using unat_mult_small [of 2 C] by simp
  have "2 * unat C \<le> unat W" using C W by simp
  then have "2 * C \<le> W" by (simp add: word_le_nat_alt u2C)
  then have uD: "unat (W - 2 * C) = D" by (simp add: unat_sub u2C D_def)
  have D2: "2 \<le> D" using C W by (simp add: D_def)
  have DW: "D \<le> unat W" by (simp add: D_def)
  show be: "b + 2 \<le> e" using n D2 by (simp add: b_def e_def)
  show en: "e \<le> n" unfolding e_def by (cases "n \<le> D") (simp, arith)
  show "cut_window W C (word_of_nat n) = (word_of_nat b, word_of_nat e)"
  proof (cases "n \<le> D")
    case True
    then have "(word_of_nat n :: u64) \<le> W - 2 * C" by (simp add: word_le_nat_alt un uD)
    then show ?thesis using True by (simp add: cut_window_def b_def e_def)
  next
    case False
    then have nle: "\<not> (word_of_nat n :: u64) \<le> W - 2 * C" by (simp add: word_le_nat_alt un uD)
    have "W - 2 * C \<le> word_of_nat n" using False by (simp add: word_le_nat_alt un uD)
    then have s: "unat (word_of_nat n - (W - 2 * C)) = n - D" by (simp add: unat_sub un uD)
    have "n - D + 1 < 18446744073709551616" using n64 False D2 by simp
    then have s1: "unat (word_of_nat n - (W - 2 * C) + 1) = n - D + 1"
      using w_add [OF s, of 1 1] by simp
    have ub: "unat ((word_of_nat n - (W - 2 * C) + 1) div 2) = (n - D + 1) div 2"
      by (simp add: unat_div s1)
    have bw: "(word_of_nat n - (W - 2 * C) + 1) div 2 = (word_of_nat b :: u64)"
    proof -
      have "b < 18446744073709551616" using en be n64 by simp
      then have "unat (word_of_nat b :: u64) = b" by (rule unat_of_nat_small)
      then have "unat ((word_of_nat n - (W - 2 * C) + 1) div 2) = unat (word_of_nat b :: u64)"
        using False by (simp add: ub b_def)
      then show ?thesis by (simp only: word_unat_eq_iff)
    qed
    have "W - 2 * C = word_of_nat D" by (simp add: uD [symmetric])
    then have "word_of_nat b + (W - 2 * C) = (word_of_nat e :: u64)"
      using False by (simp add: b_def e_def)
    then show ?thesis using nle by (simp add: cut_window_def Let_def bw)
  qed
qed

lemma next_difficulty_window:
  assumes prof: "difficulty_profile cfg height = (W, C)"
    and W: "2 \<le> unat W" and C: "2 * unat C \<le> unat W - 2"
    and len: "length timestamps = length cumulative_difficulties"
    and tr: "truncate_series W timestamps cumulative_difficulties = (ts, cds)"
    and n: "1 < length ts"
    and cw: "cut_window W C (word_of_nat (length ts)) = (cut_begin, cut_end)"
  shows "next_difficulty cfg timestamps cumulative_difficulties target_seconds height =
     (if total_work_of cds cut_begin cut_end > 0
      then Inr (scaled_difficulty (total_work_of cds cut_begin cut_end) target_seconds
                  (time_span_of (sort ts) cut_begin cut_end))
      else Inl Assertion_Failed)"
proof -
  note tl = truncate_series_lengths [OF tr len]
  have n2: "2 \<le> length ts" using n by simp
  define D where "D = unat W - 2 * unat C"
  define b where "b = (if length ts \<le> D then 0 else (length ts - D + 1) div 2)"
  define e where "e = (if length ts \<le> D then length ts else (length ts - D + 1) div 2 + D)"
  note cwn = cut_window_nat [OF W C n2 tl(2), folded D_def, folded b_def e_def]
  have W64: "unat W < 18446744073709551616" using unsigned_less [of W] by simp
  have n64: "length ts < 18446744073709551616" using tl(2) W64 by simp
  have e64: "e < 18446744073709551616" using cwn(3) n64 by simp
  have b64: "b < 18446744073709551616" using cwn(2) e64 by simp
  have cb: "cut_begin = word_of_nat b" and ce: "cut_end = word_of_nat e"
    using cw cwn(1) by simp_all
  have ub: "unat cut_begin = b" unfolding cb using b64 by (rule unat_of_nat_small)
  have ue: "unat cut_end = e" unfolding ce using e64 by (rule unat_of_nat_small)
  have un: "unat (word_of_nat (length ts) :: u64) = length ts" using n64 by (rule unat_of_nat_small)
  have a1: "W \<ge> 2" using W by (simp add: word_le_nat_alt)
  have "unat (2::u64) * unat C < 18446744073709551616" using C W64 by simp
  then have u2C: "unat (2 * C) = 2 * unat C" using unat_mult_small [of 2 C] by simp
  have a2: "2 * C \<le> W - 2" using C a1 by (simp add: word_le_nat_alt u2C unat_sub)
  have "b + 2 < 18446744073709551616" using cwn(2) e64 by simp
  then have "unat (cut_begin + 2) = b + 2" using w_add [OF ub, of 2 2] by simp
  then have a3: "cut_begin + 2 \<le> cut_end" using cwn(2) by (simp add: word_le_nat_alt ue)
  have a4: "cut_end \<le> word_of_nat (length ts)" using cwn(3) by (simp add: word_le_nat_alt ue un)
  have "1 \<le> cut_end" using cwn(2) by (simp add: word_le_nat_alt ue)
  then have "unat (cut_end - 1) = e - 1" by (simp add: unat_sub ue)
  then have a5: "unat (cut_end - 1) < length ts" using cwn(2,3) by simp
  have a6: "unat cut_begin < length ts" using cwn(2,3) ub by simp
  show ?thesis
    unfolding next_difficulty_def prof prod.case tr Let_def cw
    using tl(1) n tl(2) a1 a2 a3 a4 a5 a6 by simp
qed

lemma scaled_difficulty_nat:
  fixes total_work target_seconds time_span :: u64
  assumes span: "1 \<le> unat time_span"
  defines "P \<equiv> unat total_work * unat target_seconds"
  defines "overflow \<equiv> P div 18446744073709551616 \<noteq> 0
                        \<or> 18446744073709551616 \<le> P mod 18446744073709551616 + unat time_span - 1"
  shows "overflow \<Longrightarrow> scaled_difficulty total_work target_seconds time_span = 0"
    and "\<not> overflow \<Longrightarrow> unat (scaled_difficulty total_work target_seconds time_span)
            = (P + unat time_span - 1) div unat time_span"
proof -
  obtain low high where m: "mul total_work target_seconds = (low, high)"
    and p: "P = unat high * 18446744073709551616 + unat low"
    unfolding P_def by (rule mul_pair)
  have lo64: "unat low < 18446744073709551616" using unsigned_less [of low] by simp
  have hi: "P div 18446744073709551616 = unat high" using lo64 by (simp add: p)
  have lo: "P mod 18446744073709551616 = unat low" using lo64 by (simp add: p)
  have h0: "high \<noteq> 0 \<longleftrightarrow> P div 18446744073709551616 \<noteq> 0"
    by (simp add: hi unat_eq_zero)
  have "1 \<le> time_span" using span by (simp add: word_le_nat_alt)
  then have uz: "unat (time_span - 1) = unat time_span - 1" by (simp add: unat_sub)
  have re: "low + time_span - 1 = low + (time_span - 1)" by simp
  have "cadd low (time_span - 1) \<longleftrightarrow> 18446744073709551616 \<le> unat low + (unat time_span - 1)"
    by (simp only: cadd_iff uz)
  then have wrap: "low + time_span - 1 < low \<longleftrightarrow>
      18446744073709551616 \<le> P mod 18446744073709551616 + unat time_span - 1"
    using span by (simp add: cadd_def re lo)
  have ov: "overflow \<longleftrightarrow> high \<noteq> 0 \<or> low + time_span - 1 < low"
    unfolding overflow_def h0 wrap ..
  have sd: "scaled_difficulty total_work target_seconds time_span =
      (if high \<noteq> 0 \<or> low + time_span - 1 < low then 0 else (low + time_span - 1) div time_span)"
    by (simp only: scaled_difficulty_def m Let_def prod.case)
  show "scaled_difficulty total_work target_seconds time_span = 0" if overflow
    using that unfolding ov by (simp only: sd if_True)
  show "unat (scaled_difficulty total_work target_seconds time_span)
            = (P + unat time_span - 1) div unat time_span" if "\<not> overflow"
  proof -
    have no: "\<not> (high \<noteq> 0 \<or> low + time_span - 1 < low)" using that unfolding ov by blast
    then have "P div 18446744073709551616 = 0" using h0 by blast
    then have Plo: "P = unat low" using lo hi p by simp
    have "\<not> 18446744073709551616 \<le> P mod 18446744073709551616 + unat time_span - 1"
      using that by (simp add: overflow_def)
    then have "unat low + (unat time_span - 1) < 18446744073709551616" using span lo by simp
    then have "unat (low + (time_span - 1)) = unat low + (unat time_span - 1)"
      by (rule w_add [OF refl uz])
    then have "unat ((low + time_span - 1) div time_span) = (P + unat time_span - 1) div unat time_span"
      using span by (simp add: unat_div re Plo)
    then show ?thesis using no by (simp only: sd if_False)
  qed
qed

lemma ceil_div_nat:
  fixes P s :: nat
  assumes "1 \<le> s"
  defines "q \<equiv> (P + s - 1) div s"
  shows "P \<le> s * q" and "1 \<le> P \<Longrightarrow> 1 \<le> q" and "1 \<le> P \<Longrightarrow> s * (q - 1) < P"
proof -
  have e: "P + s - 1 = s * q + (P + s - 1) mod s" by (simp add: q_def)
  have "(P + s - 1) mod s < s" using assms(1) by simp
  then have "(P + s - 1) mod s \<le> s - 1" by simp
  then show "P \<le> s * q" using e assms(1) by linarith
  show q1: "1 \<le> q" if "1 \<le> P"
  proof -
    have "s \<le> P + s - 1" using that by simp
    then have "s div s \<le> (P + s - 1) div s" by (rule div_le_mono)
    then show ?thesis using assms(1) by (simp add: q_def)
  qed
  show "s * (q - 1) < P" if "1 \<le> P"
  proof -
    have "s * q = s * (q - 1) + s" using q1 [OF that] by (simp add: algebra_simps)
    then show ?thesis using e that by linarith
  qed
qed

lemma time_span_of_pos: "1 \<le> unat (time_span_of ts b e)"
  by (simp add: time_span_of_def Let_def unat_gt_0 Suc_leI)

text \<open>
  C3. Take an input of \<open>next_difficulty\<close> with equal series lengths, more than one sample
  after truncation, \<open>target_seconds \<ge> 1\<close> and positive total work over the cut window, for a
  profile that satisfies the function's assertions on the window and the cut. Then the
  function returns a difficulty; it is 0 exactly when the product
  \<open>total_work * target_seconds\<close> has a nonzero high 64-bit word or \<open>low + time_span - 1\<close>
  reaches \<open>2^64\<close>; otherwise it is the ceiling of \<open>total_work * target_seconds / time_span\<close>,
  the least \<open>r\<close> with \<open>time_span * r \<ge> total_work * target_seconds\<close>, and at least 1.
\<close>

theorem next_difficulty_zero_iff_overflow:
  assumes prof: "difficulty_profile cfg height = (W, C)"
    and W: "2 \<le> unat W" and C: "2 * unat C \<le> unat W - 2"
    and len: "length timestamps = length cumulative_difficulties"
    and tr: "truncate_series W timestamps cumulative_difficulties = (ts, cds)"
    and n: "1 < length ts"
    and cw: "cut_window W C (word_of_nat (length ts)) = (cut_begin, cut_end)"
    and T: "1 \<le> unat target_seconds"
    and work: "0 < unat (total_work_of cds cut_begin cut_end)"
  defines "total_work \<equiv> unat (total_work_of cds cut_begin cut_end)"
  defines "time_span \<equiv> unat (time_span_of (sort ts) cut_begin cut_end)"
  defines "P \<equiv> total_work * unat target_seconds"
  defines "overflow \<equiv> P div 2 ^ 64 \<noteq> 0 \<or> 2 ^ 64 \<le> P mod 2 ^ 64 + time_span - 1"
  shows "\<exists>r. next_difficulty cfg timestamps cumulative_difficulties target_seconds height = Inr r
           \<and> (r = 0 \<longleftrightarrow> overflow)
           \<and> (\<not> overflow \<longrightarrow>
                unat r = (P + time_span - 1) div time_span \<and> 1 \<le> unat r
                \<and> P \<le> time_span * unat r \<and> time_span * (unat r - 1) < P)"
proof -
  define r where "r = scaled_difficulty (total_work_of cds cut_begin cut_end) target_seconds
                        (time_span_of (sort ts) cut_begin cut_end)"
  have wpos: "total_work_of cds cut_begin cut_end > 0" using work by (simp add: word_less_nat_alt)
  have res: "next_difficulty cfg timestamps cumulative_difficulties target_seconds height = Inr r"
    unfolding r_def using next_difficulty_window [OF prof W C len tr n cw] wpos by simp
  have span: "1 \<le> time_span" unfolding time_span_def by (rule time_span_of_pos)
  have ov: "overflow \<longleftrightarrow> P div 18446744073709551616 \<noteq> 0
                        \<or> 18446744073709551616 \<le> P mod 18446744073709551616 + time_span - 1"
    by (simp add: overflow_def)
  note sd = scaled_difficulty_nat [OF span [unfolded time_span_def],
      of "total_work_of cds cut_begin cut_end" target_seconds,
      folded total_work_def time_span_def, folded P_def, folded ov, folded r_def]
  have P1: "1 \<le> P" using work T by (simp add: P_def total_work_def)
  note cd = ceil_div_nat [OF span, of P]
  have nz: "unat r = (P + time_span - 1) div time_span \<and> 1 \<le> unat r
                \<and> P \<le> time_span * unat r \<and> time_span * (unat r - 1) < P" if "\<not> overflow"
    using sd(2) [OF that] cd(1) cd(2) [OF P1] cd(3) [OF P1] by simp
  have "r = 0 \<longleftrightarrow> overflow"
  proof
    assume "r = 0"
    show overflow
    proof (rule ccontr)
      assume "\<not> overflow"
      then have "1 \<le> unat r" using nz by blast
      then show False using \<open>r = 0\<close> by simp
    qed
  next
    assume overflow
    then show "r = 0" by (rule sd(1))
  qed
  then show ?thesis using res nz by blast
qed

theorem next_difficulty_zero_iff_overflow_witness:
  "\<exists>r. next_difficulty
         \<lparr>DIFFICULTY_WINDOW = 720, DIFFICULTY_CUT = 60, DIFFICULTY_WINDOW_ADJUST = 90,
          DIFFICULTY_CUT_ADJUST = 10, DIFFICULTY_ADJUST_HEIGHT = 1000\<rparr>
         [100, 110, 130] [0, 10, 30] 10 0 = Inr r \<and> r \<noteq> 0 \<and> unat r = 10"
proof -
  let ?cfg = "\<lparr>DIFFICULTY_WINDOW = 720, DIFFICULTY_CUT = 60, DIFFICULTY_WINDOW_ADJUST = 90,
          DIFFICULTY_CUT_ADJUST = 10, DIFFICULTY_ADJUST_HEIGHT = 1000\<rparr>"
  have prof: "difficulty_profile ?cfg 0 = (720, 60)" by (simp add: difficulty_profile_def)
  have tr: "truncate_series 720 [100, 110, 130] [0, 10, 30] = ([100, 110, 130], [0, 10, 30])"
    by (simp add: truncate_series_def)
  have cw: "cut_window 720 60 (word_of_nat (length [100, 110, 130 :: u64])) = (0, 3)"
    by (simp add: cut_window_def)
  have so: "sort [100, 110, 130 :: u64] = [100, 110, 130]" by simp
  have tw: "unat (total_work_of [0, 10, 30] 0 3) = 30" by (simp add: total_work_of_def)
  have sp: "unat (time_span_of [100, 110, 130] 0 3) = 30" by (simp add: time_span_of_def)
  show ?thesis
    using next_difficulty_zero_iff_overflow [of ?cfg 0 720 60 "[100, 110, 130]" "[0, 10, 30]"
        "[100, 110, 130]" "[0, 10, 30]" 0 3 10, OF prof _ _ _ tr _ cw]
    by (auto simp add: so tw sp)
qed

section \<open>ClassicWindow: monotonicity, reordering and the statistics variant\<close>

lemma scaled_difficulty_mono:
  fixes w1 w2 T s :: u64
  assumes le: "w1 \<le> w2" and nz: "scaled_difficulty w2 T s \<noteq> 0" and s: "1 \<le> unat s"
  shows "scaled_difficulty w1 T s \<le> scaled_difficulty w2 T s"
proof -
  define P1 where "P1 = unat w1 * unat T"
  define P2 where "P2 = unat w2 * unat T"
  have P: "P1 \<le> P2" unfolding P1_def P2_def using le by (simp add: word_le_nat_alt)
  note sd1 = scaled_difficulty_nat [OF s, of w1 T, folded P1_def]
  note sd2 = scaled_difficulty_nat [OF s, of w2 T, folded P2_def]
  have no2: "\<not> (P2 div 18446744073709551616 \<noteq> 0
                 \<or> 18446744073709551616 \<le> P2 mod 18446744073709551616 + unat s - 1)"
    using sd2(1) nz by blast
  then have "P2 div 18446744073709551616 = 0" by blast
  then have small2: "P2 < 18446744073709551616" by (simp add: div_eq_0_iff)
  then have fit2: "P2 + unat s - 1 < 18446744073709551616" using no2 by simp
  have small1: "P1 < 18446744073709551616" using P small2 by simp
  have "P1 + unat s - 1 < 18446744073709551616" using P fit2 by simp
  then have no1: "\<not> (P1 div 18446744073709551616 \<noteq> 0
                 \<or> 18446744073709551616 \<le> P1 mod 18446744073709551616 + unat s - 1)"
    using small1 by simp
  have "P1 + unat s - 1 \<le> P2 + unat s - 1" using P by simp
  then have "(P1 + unat s - 1) div unat s \<le> (P2 + unat s - 1) div unat s" by (rule div_le_mono)
  then show ?thesis by (simp only: word_le_nat_alt sd1(2) [OF no1] sd2(2) [OF no2])
qed

text \<open>
  C7, as amended. Two inputs of \<open>next_difficulty\<close> that satisfy the preconditions, select the
  same cut window and have the same time span and the same \<open>target_seconds\<close>: if the total
  work of the first is at most that of the second, and the second result is not the overflow
  signal 0, then the first result is at most the second.
\<close>

theorem next_difficulty_monotone_in_work:
  assumes prof1: "difficulty_profile cfg height1 = (W, C)"
    and prof2: "difficulty_profile cfg height2 = (W, C)"
    and W: "2 \<le> unat W" and C: "2 * unat C \<le> unat W - 2"
    and len1: "length timestamps1 = length cumulative_difficulties1"
    and tr1: "truncate_series W timestamps1 cumulative_difficulties1 = (ts1, cds1)"
    and n1: "1 < length ts1"
    and cw1: "cut_window W C (word_of_nat (length ts1)) = (cut_begin, cut_end)"
    and len2: "length timestamps2 = length cumulative_difficulties2"
    and tr2: "truncate_series W timestamps2 cumulative_difficulties2 = (ts2, cds2)"
    and n2: "1 < length ts2"
    and cw2: "cut_window W C (word_of_nat (length ts2)) = (cut_begin, cut_end)"
    and span: "time_span_of (sort ts1) cut_begin cut_end = time_span_of (sort ts2) cut_begin cut_end"
    and pos: "0 < total_work_of cds1 cut_begin cut_end"
    and le: "total_work_of cds1 cut_begin cut_end \<le> total_work_of cds2 cut_begin cut_end"
  shows "\<exists>r1 r2.
           next_difficulty cfg timestamps1 cumulative_difficulties1 target_seconds height1 = Inr r1
         \<and> next_difficulty cfg timestamps2 cumulative_difficulties2 target_seconds height2 = Inr r2
         \<and> (r2 \<noteq> 0 \<longrightarrow> r1 \<le> r2)"
proof -
  have pos2: "0 < total_work_of cds2 cut_begin cut_end" using pos le by simp
  have e1: "next_difficulty cfg timestamps1 cumulative_difficulties1 target_seconds height1 =
      Inr (scaled_difficulty (total_work_of cds1 cut_begin cut_end) target_seconds
             (time_span_of (sort ts2) cut_begin cut_end))"
    using next_difficulty_window [OF prof1 W C len1 tr1 n1 cw1] pos span by simp
  have e2: "next_difficulty cfg timestamps2 cumulative_difficulties2 target_seconds height2 =
      Inr (scaled_difficulty (total_work_of cds2 cut_begin cut_end) target_seconds
             (time_span_of (sort ts2) cut_begin cut_end))"
    using next_difficulty_window [OF prof2 W C len2 tr2 n2 cw2] pos2 by simp
  show ?thesis
    unfolding e1 e2 using scaled_difficulty_mono [OF le _ time_span_of_pos] by blast
qed

theorem next_difficulty_monotone_in_work_witness:
  "\<exists>r1 r2.
      next_difficulty
         \<lparr>DIFFICULTY_WINDOW = 720, DIFFICULTY_CUT = 60, DIFFICULTY_WINDOW_ADJUST = 90,
          DIFFICULTY_CUT_ADJUST = 10, DIFFICULTY_ADJUST_HEIGHT = 1000\<rparr>
         [100, 110, 130] [0, 10, 30] 10 0 = Inr r1
    \<and> next_difficulty
         \<lparr>DIFFICULTY_WINDOW = 720, DIFFICULTY_CUT = 60, DIFFICULTY_WINDOW_ADJUST = 90,
          DIFFICULTY_CUT_ADJUST = 10, DIFFICULTY_ADJUST_HEIGHT = 1000\<rparr>
         [100, 110, 130] [0, 10, 60] 10 0 = Inr r2
    \<and> r2 = 20 \<and> r1 \<le> r2"
proof -
  let ?cfg = "\<lparr>DIFFICULTY_WINDOW = 720, DIFFICULTY_CUT = 60, DIFFICULTY_WINDOW_ADJUST = 90,
          DIFFICULTY_CUT_ADJUST = 10, DIFFICULTY_ADJUST_HEIGHT = 1000\<rparr>"
  have prof: "difficulty_profile ?cfg 0 = (720, 60)" by (simp add: difficulty_profile_def)
  have tr1: "truncate_series 720 [100, 110, 130] [0, 10, 30] = ([100, 110, 130], [0, 10, 30])"
    by (simp add: truncate_series_def)
  have tr2: "truncate_series 720 [100, 110, 130] [0, 10, 60] = ([100, 110, 130], [0, 10, 60])"
    by (simp add: truncate_series_def)
  have cw: "cut_window 720 60 (word_of_nat (length [100, 110, 130 :: u64])) = (0, 3)"
    by (simp add: cut_window_def)
  have m: "mul 60 10 = (600, 0)" by (simp add: mul_def Let_def)
  have r2: "next_difficulty ?cfg [100, 110, 130] [0, 10, 60] 10 0 = Inr 20"
    by (simp add: next_difficulty_def difficulty_profile_def truncate_series_def cut_window_def
        time_span_of_def total_work_of_def scaled_difficulty_def m)
  have "\<exists>r1 r2. next_difficulty ?cfg [100, 110, 130] [0, 10, 30] 10 0 = Inr r1
         \<and> next_difficulty ?cfg [100, 110, 130] [0, 10, 60] 10 0 = Inr r2
         \<and> (r2 \<noteq> 0 \<longrightarrow> r1 \<le> r2)"
    by (rule next_difficulty_monotone_in_work [OF prof prof _ _ _ tr1 _ cw _ tr2 _ cw])
       (simp_all add: total_work_of_def)
  then show ?thesis unfolding r2 by auto
qed

text \<open>
  C7 as stated fails: with the same timestamps and \<open>target_seconds = 10\<close>, total work 30 gives
  difficulty 10, while the larger total work \<open>2^63\<close> overflows the 64-bit product and gives 0.
\<close>

theorem next_difficulty_monotone_counterexample:
  "next_difficulty
      \<lparr>DIFFICULTY_WINDOW = 720, DIFFICULTY_CUT = 60, DIFFICULTY_WINDOW_ADJUST = 90,
       DIFFICULTY_CUT_ADJUST = 10, DIFFICULTY_ADJUST_HEIGHT = 1000\<rparr>
      [100, 110, 130] [0, 10, 30] 10 0 = Inr 10
   \<and> next_difficulty
      \<lparr>DIFFICULTY_WINDOW = 720, DIFFICULTY_CUT = 60, DIFFICULTY_WINDOW_ADJUST = 90,
       DIFFICULTY_CUT_ADJUST = 10, DIFFICULTY_ADJUST_HEIGHT = 1000\<rparr>
      [100, 110, 130] [0, 10, 9223372036854775808] 10 0 = Inr 0
   \<and> cut_window 720 60 (word_of_nat (length [100, 110, 130 :: u64])) = (0, 3)
   \<and> time_span_of (sort [100, 110, 130]) 0 3 = 30
   \<and> total_work_of [0, 10, 30] 0 3 = 30
   \<and> total_work_of [0, 10, 9223372036854775808] 0 3 = 9223372036854775808
   \<and> (30 :: u64) \<le> 9223372036854775808
   \<and> \<not> (10 :: u64) \<le> 0"
proof -
  have m1: "mul 30 10 = (300, 0)" by (simp add: mul_def Let_def)
  have m2: "mul 9223372036854775808 10 = (0, 5)" by (simp add: mul_def Let_def)
  show ?thesis
    by (simp add: next_difficulty_def difficulty_profile_def truncate_series_def cut_window_def
        time_span_of_def total_work_of_def scaled_difficulty_def m1 m2)
qed

lemma sort_mset_cong: "mset xs = mset ys \<Longrightarrow> sort xs = sort (ys :: u64 list)"
  by (metis properties_for_sort sorted_sort mset_sort)

text \<open>
  C8. When the timestamp series is no longer than the window selected by the height, so
  that nothing is truncated, \<open>next_difficulty\<close> returns the same value for every permutation
  of the timestamps, with the cumulative work, \<open>target_seconds\<close> and the height fixed.
\<close>

theorem next_difficulty_permutation_invariant:
  assumes perm: "mset timestamps' = mset timestamps"
    and fits: "length timestamps \<le> unat (fst (difficulty_profile cfg height))"
  shows "next_difficulty cfg timestamps' cumulative_difficulties target_seconds height
       = next_difficulty cfg timestamps cumulative_difficulties target_seconds height"
proof -
  obtain W C where prof: "difficulty_profile cfg height = (W, C)"
    by (cases "difficulty_profile cfg height")
  have len: "length timestamps' = length timestamps" using perm by (rule mset_eq_length)
  have so: "sort timestamps' = sort timestamps" using perm by (rule sort_mset_cong)
  have fitsW: "\<not> length timestamps > unat W" using fits prof by simp
  have t1: "truncate_series W timestamps' cumulative_difficulties = (timestamps', cumulative_difficulties)"
    using fitsW len by (simp add: truncate_series_def)
  have t2: "truncate_series W timestamps cumulative_difficulties = (timestamps, cumulative_difficulties)"
    using fitsW by (simp add: truncate_series_def)
  show ?thesis
    unfolding next_difficulty_def prof prod.case t1 t2 Let_def len so ..
qed

theorem next_difficulty_permutation_invariant_witness:
  "next_difficulty
      \<lparr>DIFFICULTY_WINDOW = 720, DIFFICULTY_CUT = 60, DIFFICULTY_WINDOW_ADJUST = 90,
       DIFFICULTY_CUT_ADJUST = 10, DIFFICULTY_ADJUST_HEIGHT = 1000\<rparr>
      [130, 100, 110] [0, 10, 30] 10 0
   = next_difficulty
      \<lparr>DIFFICULTY_WINDOW = 720, DIFFICULTY_CUT = 60, DIFFICULTY_WINDOW_ADJUST = 90,
       DIFFICULTY_CUT_ADJUST = 10, DIFFICULTY_ADJUST_HEIGHT = 1000\<rparr>
      [100, 110, 130] [0, 10, 30] 10 0"
  by (rule next_difficulty_permutation_invariant) (simp_all add: difficulty_profile_def)

lemma static_asserts_words:
  assumes "static_asserts cfg"
  shows "DIFFICULTY_WINDOW cfg \<ge> 2" and "2 * DIFFICULTY_CUT cfg \<le> DIFFICULTY_WINDOW cfg - 2"
proof -
  have W: "2 \<le> unat (DIFFICULTY_WINDOW cfg)"
    and C: "2 * unat (DIFFICULTY_CUT cfg) \<le> unat (DIFFICULTY_WINDOW cfg) - 2"
    using assms by (simp_all add: static_asserts_def)
  have W64: "unat (DIFFICULTY_WINDOW cfg) < 18446744073709551616"
    using unsigned_less [of "DIFFICULTY_WINDOW cfg"] by simp
  show a1: "DIFFICULTY_WINDOW cfg \<ge> 2" using W by (simp add: word_le_nat_alt)
  have "unat (2::u64) * unat (DIFFICULTY_CUT cfg) < 18446744073709551616" using C W64 by simp
  then have "unat (2 * DIFFICULTY_CUT cfg) = 2 * unat (DIFFICULTY_CUT cfg)"
    using unat_mult_small [of 2 "DIFFICULTY_CUT cfg"] by simp
  then show "2 * DIFFICULTY_CUT cfg \<le> DIFFICULTY_WINDOW cfg - 2"
    using C a1 by (simp add: word_le_nat_alt unat_sub)
qed

text \<open>
  C4. For a configuration that passes the two \<open>static_assert\<close>s, every recorder, every
  recorder state and every height \<open>h0\<close> below the adjustment fork height,
  \<open>next_difficulty_with_statistics\<close> returns what \<open>next_difficulty\<close> returns at \<open>h0\<close> on the same
  series and \<open>target_seconds\<close>. The recorder is arbitrary, so the value does not depend on
  whether the recorder is enabled, disabled or failing.
\<close>

theorem next_difficulty_with_statistics_agrees:
  assumes sa: "static_asserts cfg" and h0: "h0 < DIFFICULTY_ADJUST_HEIGHT cfg"
  shows "fst (next_difficulty_with_statistics cfg recorder db blockheight timestamps
                cumulative_difficulties target_seconds)
       = next_difficulty cfg timestamps cumulative_difficulties target_seconds h0"
proof -
  have prof: "difficulty_profile cfg h0 = (DIFFICULTY_WINDOW cfg, DIFFICULTY_CUT cfg)"
    using h0 by (simp add: difficulty_profile_def not_le [symmetric])
  note w = static_asserts_words [OF sa]
  let ?W = "DIFFICULTY_WINDOW cfg" and ?C = "DIFFICULTY_CUT cfg"
  obtain ts cds where tr: "truncate_series ?W timestamps cumulative_difficulties = (ts, cds)"
    by (cases "truncate_series ?W timestamps cumulative_difficulties")
  note tr' = tr [unfolded truncate_series_def]
  obtain cut_begin cut_end where cw: "cut_window ?W ?C (word_of_nat (length ts)) = (cut_begin, cut_end)"
    by (cases "cut_window ?W ?C (word_of_nat (length ts))")
  note cw' = cw [unfolded cut_window_def Let_def]
  define time_span where "time_span = time_span_of (sort ts) cut_begin cut_end"
  note ts' = time_span_def [unfolded time_span_of_def Let_def, symmetric]
  define total_work where "total_work = total_work_of cds cut_begin cut_end"
  note tw' = total_work_def [unfolded total_work_of_def, symmetric]
  obtain low high where m: "mul total_work target_seconds = (low, high)"
    by (cases "mul total_work target_seconds")
  obtain rc db' where rec: "recorder db blockheight time_span total_work
      ((low + time_span - 1) div time_span) = (rc, db')"
    by (cases "recorder db blockheight time_span total_work ((low + time_span - 1) div time_span)")
  have R: "next_difficulty cfg timestamps cumulative_difficulties target_seconds h0 =
    (if length ts \<noteq> length cds then Inl Assertion_Failed
     else if length ts \<le> 1 then Inr 1
     else if \<not> length ts \<le> unat ?W then Inl Assertion_Failed
     else if \<not> (cut_begin + 2 \<le> cut_end \<and> cut_end \<le> word_of_nat (length ts))
     then Inl Assertion_Failed
     else if \<not> (unat (cut_end - 1) < length ts \<and> unat cut_begin < length ts)
     then Inl Out_Of_Range
     else if \<not> total_work > 0 then Inl Assertion_Failed
     else if high \<noteq> 0 \<or> low + time_span - 1 < low then Inr 0
     else Inr ((low + time_span - 1) div time_span))"
    unfolding next_difficulty_def prof prod.case tr Let_def cw
      time_span_def [symmetric] total_work_def [symmetric] scaled_difficulty_def m
    using w by simp
  have L: "fst (next_difficulty_with_statistics cfg recorder db blockheight timestamps
                cumulative_difficulties target_seconds) =
    (if length ts \<noteq> length cds then Inl Assertion_Failed
     else if length ts \<le> 1 then Inr 1
     else if \<not> length ts \<le> unat ?W then Inl Assertion_Failed
     else if \<not> (cut_begin + 2 \<le> cut_end \<and> cut_end \<le> word_of_nat (length ts))
     then Inl Assertion_Failed
     else if \<not> (unat (cut_end - 1) < length ts \<and> unat cut_begin < length ts)
     then Inl Out_Of_Range
     else if \<not> total_work > 0 then Inl Assertion_Failed
     else if high \<noteq> 0 \<or> low + time_span - 1 < low then Inr 0
     else Inr ((low + time_span - 1) div time_span))"
    unfolding next_difficulty_with_statistics_def tr' Let_def prod.case cw' ts' tw' m rec
    by simp
  show ?thesis unfolding L R ..
qed

theorem next_difficulty_with_statistics_agrees_witness:
  "fst (next_difficulty_with_statistics
          \<lparr>DIFFICULTY_WINDOW = 720, DIFFICULTY_CUT = 60, DIFFICULTY_WINDOW_ADJUST = 90,
           DIFFICULTY_CUT_ADJUST = 10, DIFFICULTY_ADJUST_HEIGHT = 1000\<rparr>
          (insert_next_difficulty \<lparr>begin_ok = True, prepare_ok = True, step_ok = True\<rparr>)
          \<lparr>m_statistics_open = True, t_next_block_difficulty = []\<rparr>
          7 [100, 110, 130] [0, 10, 30] 10) = Inr 10
   \<and> fst (next_difficulty_with_statistics
          \<lparr>DIFFICULTY_WINDOW = 720, DIFFICULTY_CUT = 60, DIFFICULTY_WINDOW_ADJUST = 90,
           DIFFICULTY_CUT_ADJUST = 10, DIFFICULTY_ADJUST_HEIGHT = 1000\<rparr>
          (insert_next_difficulty \<lparr>begin_ok = True, prepare_ok = True, step_ok = True\<rparr>)
          \<lparr>m_statistics_open = False, t_next_block_difficulty = []\<rparr>
          7 [100, 110, 130] [0, 10, 30] 10) = Inr 10
   \<and> fst (next_difficulty_with_statistics
          \<lparr>DIFFICULTY_WINDOW = 720, DIFFICULTY_CUT = 60, DIFFICULTY_WINDOW_ADJUST = 90,
           DIFFICULTY_CUT_ADJUST = 10, DIFFICULTY_ADJUST_HEIGHT = 1000\<rparr>
          (insert_next_difficulty \<lparr>begin_ok = False, prepare_ok = False, step_ok = False\<rparr>)
          \<lparr>m_statistics_open = True, t_next_block_difficulty = []\<rparr>
          7 [100, 110, 130] [0, 10, 30] 10) = Inr 10"
proof -
  let ?cfg = "\<lparr>DIFFICULTY_WINDOW = 720, DIFFICULTY_CUT = 60, DIFFICULTY_WINDOW_ADJUST = 90,
           DIFFICULTY_CUT_ADJUST = 10, DIFFICULTY_ADJUST_HEIGHT = 1000\<rparr>"
  have sa: "static_asserts ?cfg" by (simp add: static_asserts_def)
  have h0: "0 < DIFFICULTY_ADJUST_HEIGHT ?cfg" by simp
  have m: "mul 30 10 = (300, 0)" by (simp add: mul_def Let_def)
  have nd: "next_difficulty ?cfg [100, 110, 130] [0, 10, 30] 10 0 = Inr 10"
    by (simp add: next_difficulty_def difficulty_profile_def truncate_series_def cut_window_def
        time_span_of_def total_work_of_def scaled_difficulty_def m)
  show ?thesis
    by (simp only: next_difficulty_with_statistics_agrees [OF sa h0] nd)
qed

text \<open>
  With statistics open and SQLite answering normally, the recorder is handed the block height,
  the time span, the total work and the difficulty.
\<close>

lemma next_difficulty_with_statistics_records:
  "snd (next_difficulty_with_statistics
          \<lparr>DIFFICULTY_WINDOW = 720, DIFFICULTY_CUT = 60, DIFFICULTY_WINDOW_ADJUST = 90,
           DIFFICULTY_CUT_ADJUST = 10, DIFFICULTY_ADJUST_HEIGHT = 1000\<rparr>
          (insert_next_difficulty \<lparr>begin_ok = True, prepare_ok = True, step_ok = True\<rparr>)
          \<lparr>m_statistics_open = True, t_next_block_difficulty = []\<rparr>
          7 [100, 110, 130] [0, 10, 30] 10)
   = \<lparr>m_statistics_open = True, t_next_block_difficulty = [(7, 30, 30, 10)]\<rparr>"
proof -
  have m: "mul 30 10 = (300, 0)" by (simp add: mul_def Let_def)
  show ?thesis
    by (simp add: next_difficulty_with_statistics_def resize_def insert_next_difficulty_def m)
qed

section \<open>LWMA1Window: bootstrap, the weighted sum and the lower bound\<close>

text \<open>
  C5, as amended. For equal series lengths of at most \<open>N + 1\<close>, when neither \<open>N + 1\<close> nor
  \<open>FORK_HEIGHT + N\<close> wraps in 64 bits, a height with \<open>FORK_HEIGHT \<le> height < FORK_HEIGHT + N\<close>
  makes \<open>LWMA1_\<close> return \<open>difficulty_guess\<close>, whatever the two series hold. The bounds are read
  over the natural numbers.
\<close>

theorem LWMA1_bootstrap:
  assumes len: "length timestamps = length cumulative_difficulties"
    and le: "length timestamps \<le> unat N + 1"
    and lo: "unat FORK_HEIGHT \<le> unat height"
    and hi: "unat height < unat FORK_HEIGHT + unat N"
    and nw_fork: "unat FORK_HEIGHT + unat N < 2 ^ 64"
    and nw_N: "unat N + 1 < 2 ^ 64"
  shows "LWMA1 timestamps cumulative_difficulties T N height FORK_HEIGHT difficulty_guess
         = Inr difficulty_guess"
proof -
  have "unat (1::u64) = 1" by simp
  moreover have "unat N + 1 < 18446744073709551616" using nw_N by simp
  ultimately have uN1: "unat (N + 1) = unat N + 1" by (intro w_add refl)
  have "unat FORK_HEIGHT + unat N < 18446744073709551616" using nw_fork by simp
  then have uF: "unat (FORK_HEIGHT + N) = unat FORK_HEIGHT + unat N" by (intro w_add refl)
  have c1: "(length timestamps = length cumulative_difficulties
              \<and> length timestamps \<le> unat (N + 1)) = True"
    using len le by (simp only: uN1) simp
  have c2: "(FORK_HEIGHT \<le> height \<and> height < FORK_HEIGHT + N) = True"
    using lo hi by (simp only: word_le_nat_alt word_less_nat_alt uF) simp
  show ?thesis
    by (simp only: LWMA1_def c1 c2 simp_thms if_True if_False)
qed

theorem LWMA1_bootstrap_witness:
  "LWMA1 [7, 3, 3] [9, 0, 4] 120 60 1030 1000 5000 = Inr 5000"
  by (rule LWMA1_bootstrap) simp_all

text \<open>
  C5 as stated fails where a 64-bit sum wraps. With \<open>FORK_HEIGHT = height = 2^64 - 1\<close> and
  \<open>N = 2\<close> the height lies in the window, but \<open>FORK_HEIGHT + N\<close> wraps to 1, the test of line 250
  is false and the function computes 742 instead of returning the guess 5000. With
  \<open>N = 2^64 - 1\<close> the bound \<open>N + 1\<close> of the first assertion wraps to 0, and the assertion fails
  for a series of one sample.
\<close>

theorem LWMA1_bootstrap_counterexample:
  "length [1000, 1120, 1240 :: u64] = length [0, 1000, 2000 :: u64]
   \<and> length [1000, 1120, 1240 :: u64] \<le> unat (2 :: u64) + 1
   \<and> unat (18446744073709551615 :: u64) \<le> unat (18446744073709551615 :: u64)
   \<and> unat (18446744073709551615 :: u64) < unat (18446744073709551615 :: u64) + unat (2 :: u64)
   \<and> LWMA1 [1000, 1120, 1240] [0, 1000, 2000] 120 2
         18446744073709551615 18446744073709551615 5000 = Inr 742
   \<and> (742 :: u64) \<noteq> 5000
   \<and> length [1 :: u64] = length [1 :: u64]
   \<and> length [1 :: u64] \<le> unat (18446744073709551615 :: u64) + 1
   \<and> unat (0 :: u64) \<le> unat (0 :: u64)
   \<and> unat (0 :: u64) < unat (0 :: u64) + unat (18446744073709551615 :: u64)
   \<and> LWMA1 [1] [1] 120 18446744073709551615 0 0 5000 = Inl Assertion_Failed"
proof -
  have u2: "unat (2::u64) = Suc (Suc 0)" by simp
  have L: "lwma_L [1000, 1120, 1240] 120 2 = 480"
    unfolding lwma_L_def u2 by (simp add: this_timestamp_of_def solve_time_def)
  have A: "LWMA1 [1000, 1120, 1240] [0, 1000, 2000] 120 2
         18446744073709551615 18446744073709551615 5000 = Inr 742"
    by (simp add: LWMA1_def L round_digits.simps)
  have B: "LWMA1 [1] [1] 120 18446744073709551615 0 0 5000 = Inl Assertion_Failed"
    by (simp add: LWMA1_def)
  show ?thesis by (simp add: A B)
qed

lemma this_timestamp_gap:
  "1 \<le> unat (this_timestamp_of previous_timestamp ts_i - previous_timestamp)"
proof (cases "ts_i > previous_timestamp")
  case True
  then have "ts_i - previous_timestamp \<noteq> 0" by simp
  then show ?thesis using True by (simp add: this_timestamp_of_def unat_gt_0 Suc_leI)
next
  case False
  then show ?thesis by (simp add: this_timestamp_of_def)
qed

lemma solve_time_bounds:
  assumes T: "1 \<le> unat T" and T6: "6 * unat T < 18446744073709551616"
  shows "1 \<le> unat (solve_time T previous_timestamp (this_timestamp_of previous_timestamp ts_i))"
    and "unat (solve_time T previous_timestamp (this_timestamp_of previous_timestamp ts_i))
           \<le> 6 * unat T"
proof -
  have u6: "unat (6 * T) = 6 * unat T" using w_mul [of 6 6 T "unat T"] T6 by simp
  let ?g = "this_timestamp_of previous_timestamp ts_i - previous_timestamp"
  have m: "unat (solve_time T previous_timestamp (this_timestamp_of previous_timestamp ts_i))
         = min (6 * unat T) (unat ?g)"
    by (simp add: solve_time_def min_def word_le_nat_alt u6)
  show "1 \<le> unat (solve_time T previous_timestamp (this_timestamp_of previous_timestamp ts_i))"
    unfolding m using T this_timestamp_gap [of previous_timestamp ts_i] by simp
  show "unat (solve_time T previous_timestamp (this_timestamp_of previous_timestamp ts_i))
           \<le> 6 * unat T"
    unfolding m by simp
qed

lemma lwma_loop_bounds:
  assumes T: "1 \<le> unat T" and T6: "6 * unat T < 18446744073709551616"
    and fit: "unat L + 6 * unat T * (\<Sum>j = unat i..<unat i + n. j) < 18446744073709551616"
    and i: "unat i + n < 18446744073709551616"
  shows "unat L + (\<Sum>j = unat i..<unat i + n. j) \<le> unat (lwma_loop n timestamps T i L previous_timestamp)
       \<and> unat (lwma_loop n timestamps T i L previous_timestamp)
           \<le> unat L + 6 * unat T * (\<Sum>j = unat i..<unat i + n. j)"
  using fit i
proof (induction n arbitrary: i L previous_timestamp)
  case 0
  show ?case by simp
next
  case (Suc n)
  define this_timestamp where
    "this_timestamp = this_timestamp_of previous_timestamp (timestamps ! unat i)"
  define st where "st = solve_time T previous_timestamp this_timestamp"
  define L' where "L' = L + i * st"
  have st1: "1 \<le> unat st" and st6: "unat st \<le> 6 * unat T"
    unfolding st_def this_timestamp_def using solve_time_bounds [OF T T6] by blast+
  define S where "S = (\<Sum>j = Suc (unat i)..<Suc (unat i) + n. j)"
  have split: "(\<Sum>j = unat i..<unat i + Suc n. j) = unat i + S"
    unfolding S_def using sum.atLeast_Suc_lessThan [of "unat i" "unat i + Suc n" "\<lambda>j. j"] by simp
  have d: "6 * unat T * (unat i + S) = 6 * unat T * unat i + 6 * unat T * S"
    by (simp add: algebra_simps)
  have "unat i + 1 < 18446744073709551616" using Suc.prems(2) by simp
  moreover have "unat (1::u64) = 1" by simp
  ultimately have "unat (i + 1) = unat i + 1" by (intro w_add refl)
  then have ui: "unat (i + 1) = Suc (unat i)" by simp
  have "unat i * unat st \<le> unat i * (6 * unat T)" using st6 by (rule mult_le_mono2)
  then have ist: "unat i * unat st \<le> 6 * unat T * unat i" by (simp add: mult.commute)
  have fit': "unat L + 6 * unat T * unat i + 6 * unat T * S < 18446744073709551616"
    using Suc.prems(1) unfolding split d by simp
  then have "unat i * unat st < 18446744073709551616" using ist by linarith
  then have uis: "unat (i * st) = unat i * unat st" by (rule w_mul [OF refl refl])
  have "unat L + unat i * unat st < 18446744073709551616" using fit' ist by linarith
  then have uL': "unat L' = unat L + unat i * unat st"
    unfolding L'_def by (rule w_add [OF refl uis])
  define R where "R = unat (lwma_loop n timestamps T (i + 1) L' this_timestamp)"
  have "unat L' + 6 * unat T * (\<Sum>j = unat (i + 1)..<unat (i + 1) + n. j) < 18446744073709551616"
    unfolding ui uL' S_def [symmetric] using fit' ist by linarith
  moreover have "unat (i + 1) + n < 18446744073709551616" unfolding ui using Suc.prems(2) by simp
  ultimately have "unat L' + (\<Sum>j = unat (i + 1)..<unat (i + 1) + n. j)
         \<le> unat (lwma_loop n timestamps T (i + 1) L' this_timestamp)
       \<and> unat (lwma_loop n timestamps T (i + 1) L' this_timestamp)
           \<le> unat L' + 6 * unat T * (\<Sum>j = unat (i + 1)..<unat (i + 1) + n. j)"
    by (rule Suc.IH)
  then have IH: "unat L' + S \<le> R" "R \<le> unat L' + 6 * unat T * S"
    unfolding ui S_def [symmetric] R_def [symmetric] by blast+
  have step: "unat (lwma_loop (Suc n) timestamps T i L previous_timestamp) = R"
    by (simp add: Let_def L'_def st_def this_timestamp_def R_def)
  have lo: "unat i \<le> unat i * unat st" using st1 by simp
  have "unat L + (unat i + S) \<le> R" using IH(1) lo unfolding uL' by linarith
  moreover have "R \<le> unat L + (6 * unat T * unat i + 6 * unat T * S)"
    using IH(2) ist unfolding uL' by linarith
  ultimately show ?case unfolding step split d by simp
qed

lemma gauss_sum: "2 * (\<Sum>j = 1..<1 + n. j) = n * (n + 1)" for n :: nat
  by (induction n) simp_all

lemma lwma_L_bounds:
  assumes T: "1 \<le> unat T" and N: "1 \<le> unat N"
    and nowrap: "3 * unat T * unat N * (unat N + 1) < 18446744073709551616"
  shows "unat N * (unat N + 1) div 2 \<le> unat (lwma_L timestamps T N)"
    and "unat N * unat N * unat T div 20 \<le> unat (lwma_L timestamps T N)"
    and "unat (lwma_L timestamps T N) \<le> 3 * unat T * unat N * (unat N + 1)"
proof -
  define n where "n = unat N"
  define t where "t = unat T"
  define G where "G = (\<Sum>j = 1..<1 + n. j)"
  have G2: "2 * G = n * (n + 1)" unfolding G_def by (rule gauss_sum)
  have Gd: "n * (n + 1) div 2 = G" using G2 by simp
  have nw: "3 * t * n * (n + 1) < 18446744073709551616" using nowrap by (simp add: n_def t_def)
  have "6 * t * G = 3 * t * (2 * G)" by simp
  also have "\<dots> = 3 * t * n * (n + 1)" unfolding G2 by (simp add: algebra_simps)
  finally have G6: "6 * t * G = 3 * t * n * (n + 1)" .
  have n1: "1 \<le> n" and t1: "1 \<le> t" using N T by (simp_all add: n_def t_def)
  have "1 * 1 \<le> n * (n + 1)" using n1 by (intro mult_le_mono) simp_all
  then have G1: "1 \<le> G" using G2 by simp
  have "6 * t * 1 \<le> 6 * t * G" using G1 by (rule mult_le_mono2)
  then have T6: "6 * t < 18446744073709551616" using G6 nw by simp
  have "n * 1 \<le> n * (n + 1)" by (rule mult_le_mono2) simp
  moreover have "1 * (n * (n + 1)) \<le> (3 * t) * (n * (n + 1))" using t1 by (intro mult_le_mono1) simp
  ultimately have nn: "n * (n + 1) \<le> 3 * t * n * (n + 1)" and nle: "n \<le> n * (n + 1)"
    by (simp_all add: algebra_simps)
  have "n + 1 \<le> n * (n + 1)" using n1 by simp
  then have n64: "1 + n < 18446744073709551616" using nn nw by linarith
  define loop where "loop = lwma_loop n timestamps T 1 0 (timestamps ! 0 - T)"
  have e1: "unat (0::u64) + 6 * unat T * (\<Sum>j = unat (1::u64)..<unat (1::u64) + n. j) = 6 * t * G"
    by (simp only: unsigned_0 unsigned_1 G_def t_def add_0)
  have e2: "unat (0::u64) + (\<Sum>j = unat (1::u64)..<unat (1::u64) + n. j) = G"
    by (simp only: unsigned_0 unsigned_1 G_def add_0)
  have e3: "unat (1::u64) + n = 1 + n" by (simp only: unsigned_1)
  have "unat (0::u64) + (\<Sum>j = unat (1::u64)..<unat (1::u64) + n. j)
          \<le> unat (lwma_loop n timestamps T 1 0 (timestamps ! 0 - T))
       \<and> unat (lwma_loop n timestamps T 1 0 (timestamps ! 0 - T))
          \<le> unat (0::u64) + 6 * unat T * (\<Sum>j = unat (1::u64)..<unat (1::u64) + n. j)"
  proof (rule lwma_loop_bounds [OF T])
    show "6 * unat T < 18446744073709551616" using T6 by (simp only: t_def)
    show "unat (0::u64) + 6 * unat T * (\<Sum>j = unat (1::u64)..<unat (1::u64) + n. j)
            < 18446744073709551616"
      unfolding e1 G6 by (rule nw)
    show "unat (1::u64) + n < 18446744073709551616" unfolding e3 by (rule n64)
  qed
  then have lb: "G \<le> unat loop" and ub: "unat loop \<le> 3 * t * n * (n + 1)"
    unfolding e1 e2 G6 loop_def [symmetric] by blast+
  have "n * n \<le> n * (n + 1)" by (rule mult_le_mono2) simp
  then have nn64: "n * n < 18446744073709551616" using nn nw by linarith
  then have uNN: "unat (N * N) = n * n" unfolding n_def by (rule w_mul [OF refl refl])
  have "n * n * t \<le> n * (n + 1) * (3 * t)" by (intro mult_le_mono) simp_all
  then have nnt: "n * n * t \<le> 3 * t * n * (n + 1)" by (simp add: algebra_simps)
  then have "n * n * t < 18446744073709551616" using nw by linarith
  then have uNNT: "unat (N * N * T) = n * n * t" unfolding t_def by (rule w_mul [OF uNN refl])
  have fl: "unat (N * N * T div 20) = n * n * t div 20" by (simp add: unat_div uNNT)
  have L: "unat (lwma_L timestamps T N) = max (unat loop) (n * n * t div 20)"
    by (simp add: lwma_L_def Let_def loop_def [symmetric] n_def [symmetric] word_less_nat_alt fl max_def)
  have "n * n * t div 20 \<le> n * n * t" by simp
  then have flub: "n * n * t div 20 \<le> 3 * t * n * (n + 1)" using nnt by linarith
  show "unat N * (unat N + 1) div 2 \<le> unat (lwma_L timestamps T N)"
    unfolding n_def [symmetric] Gd L using lb by simp
  show "unat N * unat N * unat T div 20 \<le> unat (lwma_L timestamps T N)"
    unfolding n_def [symmetric] t_def [symmetric] L by simp
  show "unat (lwma_L timestamps T N) \<le> 3 * unat T * unat N * (unat N + 1)"
    unfolding n_def [symmetric] t_def [symmetric] L using ub flub by simp
qed

lemma window_products:
  fixes n t :: nat
  assumes n: "1 \<le> n" and t: "1 \<le> t"
  shows "n + 1 \<le> n * (n + 1)" and "2 \<le> n * (n + 1)" and "n * n \<le> n * (n + 1)"
    and "n * (n + 1) \<le> t * (n * (n + 1))" and "t \<le> t * (n * (n + 1))"
    and "3 * t * n * (n + 1) = 3 * (t * (n * (n + 1)))"
    and "n * n * t \<le> t * (n * (n + 1))"
    and "2 * t \<le> t * (n * (n + 1))"
proof -
  have "1 * (n + 1) \<le> n * (n + 1)" using n by (rule mult_le_mono1)
  then show a: "n + 1 \<le> n * (n + 1)" by (simp only: mult_1)
  then show b: "2 \<le> n * (n + 1)" using n by linarith
  show c: "n * n \<le> n * (n + 1)" by (rule mult_le_mono2) simp
  have "1 * (n * (n + 1)) \<le> t * (n * (n + 1))" using t by (rule mult_le_mono1)
  then show "n * (n + 1) \<le> t * (n * (n + 1))" by (simp only: mult_1)
  have "1 \<le> n * (n + 1)" using b by linarith
  then have "t * 1 \<le> t * (n * (n + 1))" by (rule mult_le_mono2)
  then show "t \<le> t * (n * (n + 1))" by (simp only: mult_1_right)
  show "3 * t * n * (n + 1) = 3 * (t * (n * (n + 1)))" by (simp only: mult.assoc)
  have "t * (n * n) \<le> t * (n * (n + 1))" using c by (rule mult_le_mono2)
  then show "n * n * t \<le> t * (n * (n + 1))" by (simp only: mult.commute [of _ t])
  have "t * 2 \<le> t * (n * (n + 1))" using b by (rule mult_le_mono2)
  then show "2 * t \<le> t * (n * (n + 1))" by (simp only: mult.commute [of t 2])
qed

lemma LWMA1_main_path:
  assumes N: "1 \<le> unat N" and N64: "unat N + 1 < 18446744073709551616"
    and len: "length timestamps = unat N + 1"
    and lenc: "length cumulative_difficulties = unat N + 1"
    and out: "\<not> (FORK_HEIGHT \<le> height \<and> height < FORK_HEIGHT + N)"
    and L: "200 * lwma_L timestamps T N \<noteq> 0"
  shows "LWMA1 timestamps cumulative_difficulties T N height FORK_HEIGHT difficulty_guess =
    Inr (round_digits 1000000000
      (if (cumulative_difficulties ! unat N - cumulative_difficulties ! 0) div N > 2000000 * N * N * T
       then ((cumulative_difficulties ! unat N - cumulative_difficulties ! 0) div N
               div (200 * lwma_L timestamps T N)) * (N * (N + 1) * T * 99)
       else ((cumulative_difficulties ! unat N - cumulative_difficulties ! 0) div N
               * N * (N + 1) * T * 99) div (200 * lwma_L timestamps T N)))"
proof -
  have "unat (1::u64) = 1" by simp
  then have uN1: "unat (N + 1) = unat N + 1" using N64 by (intro w_add refl)
  have c1: "(length timestamps = length cumulative_difficulties
              \<and> length timestamps \<le> unat (N + 1)) = True"
    by (simp only: len lenc uN1) simp
  have c2: "(FORK_HEIGHT \<le> height \<and> height < FORK_HEIGHT + N) = False" using out by simp
  have c3: "(length timestamps \<noteq> unat (N + 1)) = False" by (simp only: len uN1) simp
  have c4: "(timestamps = []) = False" using len by auto
  have c5: "(N = 0) = False" using N by auto
  have c6: "(200 * lwma_L timestamps T N = 0) = False" using L by simp
  show ?thesis
    by (simp only: LWMA1_def Let_def c1 c2 c3 c4 c5 c6 simp_thms if_True if_False)
qed

text \<open>
  C10, as amended. For \<open>T \<ge> 1\<close>, \<open>N \<ge> 1\<close>, series of \<open>N + 1\<close> samples, a height outside the
  bootstrap window, and \<open>3 * T * N * (N + 1) < 2^64\<close> (so that neither \<open>6*T\<close>, nor the weighted
  sum, nor \<open>N*N*T\<close> wraps): every clamped solve time is at least 1, and after the loop and the
  floor step \<open>L \<ge> N*(N+1)/2\<close>, \<open>L \<ge> N*N*T/20\<close> and \<open>L > 0\<close>; when \<open>200*L\<close> does not wrap either,
  the function returns a difficulty, so no division by zero is reached.
\<close>

theorem LWMA1_L_positive:
  assumes T: "1 \<le> unat T" and N: "1 \<le> unat N"
    and len: "length timestamps = unat N + 1"
    and lenc: "length cumulative_difficulties = unat N + 1"
    and out: "\<not> (FORK_HEIGHT \<le> height \<and> height < FORK_HEIGHT + N)"
    and nowrap: "3 * unat T * unat N * (unat N + 1) < 2 ^ 64"
  shows "(\<forall>previous_timestamp ts_i.
            1 \<le> unat (solve_time T previous_timestamp
                         (this_timestamp_of previous_timestamp ts_i)))
       \<and> unat N * (unat N + 1) div 2 \<le> unat (lwma_L timestamps T N)
       \<and> unat N * unat N * unat T div 20 \<le> unat (lwma_L timestamps T N)
       \<and> 0 < unat (lwma_L timestamps T N)
       \<and> (200 * unat (lwma_L timestamps T N) < 2 ^ 64 \<longrightarrow>
            (\<exists>d. LWMA1 timestamps cumulative_difficulties T N height FORK_HEIGHT
                    difficulty_guess = Inr d))"
proof -
  have nw: "3 * unat T * unat N * (unat N + 1) < 18446744073709551616" using nowrap by simp
  note Lb = lwma_L_bounds [OF T N nw, of timestamps]
  note wp = window_products [OF N T]
  have nw': "3 * (unat T * (unat N * (unat N + 1))) < 18446744073709551616"
    using nw by (simp only: wp(6))
  have T6: "6 * unat T < 18446744073709551616" using nw' wp(8) by linarith
  have N64: "unat N + 1 < 18446744073709551616" using nw' wp(1,4) by linarith
  have st: "\<forall>previous_timestamp ts_i.
            1 \<le> unat (solve_time T previous_timestamp
                         (this_timestamp_of previous_timestamp ts_i))"
    using solve_time_bounds(1) [OF T T6] by blast
  have "1 \<le> unat N * (unat N + 1) div 2" using wp(2) by simp
  then have pos: "0 < unat (lwma_L timestamps T N)" using Lb(1) by linarith
  have val: "\<exists>d. LWMA1 timestamps cumulative_difficulties T N height FORK_HEIGHT
                    difficulty_guess = Inr d"
    if "200 * unat (lwma_L timestamps T N) < 2 ^ 64"
  proof -
    have "unat (200::u64) * unat (lwma_L timestamps T N) < 18446744073709551616"
      using that by simp
    then have "unat (200 * lwma_L timestamps T N) = unat (200::u64) * unat (lwma_L timestamps T N)"
      by (rule unat_mult_small)
    then have "0 < unat (200 * lwma_L timestamps T N)" using pos by simp
    then have "200 * lwma_L timestamps T N \<noteq> 0" by auto
    from LWMA1_main_path [OF N N64 len lenc out this] show ?thesis by blast
  qed
  show ?thesis using st Lb(1,2) pos val by blast
qed

lemma unat_2_Suc: "unat (2::u64) = Suc (Suc 0)"
  by simp

theorem LWMA1_L_positive_witness:
  "3 \<le> unat (lwma_L [1000, 1120, 1240] 120 2)
   \<and> 24 \<le> unat (lwma_L [1000, 1120, 1240] 120 2)
   \<and> lwma_L [1000, 1120, 1240] 120 2 = 480
   \<and> (\<exists>d. LWMA1 [1000, 1120, 1240] [0, 1000, 2000] 120 2 0 10 5000 = Inr d)"
proof -
  have L: "lwma_L [1000, 1120, 1240] 120 2 = 480"
    unfolding lwma_L_def unat_2_Suc by (simp add: this_timestamp_of_def solve_time_def)
  show ?thesis
    using LWMA1_L_positive [of 120 2 "[1000, 1120, 1240]" "[0, 1000, 2000]" 10 0 5000]
    by (simp add: L)
qed

text \<open>
  C10 as stated fails where the 64-bit arithmetic wraps. With \<open>T = 2^62\<close> and \<open>N = 2\<close> the clamp
  \<open>6*T\<close> wraps to \<open>2^63\<close>, the weighted sum \<open>2^63 + 2 * 2^62\<close> wraps to 0 and so does the floor
  \<open>N*N*T/20\<close>: \<open>L\<close> is 0 and the division by \<open>200*L\<close> is a division by zero. With \<open>T = 2^63\<close>
  the clamp \<open>6*T\<close> wraps to 0, and so does every clamped solve time.
\<close>

theorem LWMA1_L_positive_counterexample:
  "1 \<le> unat (4611686018427387904 :: u64) \<and> 1 \<le> unat (2 :: u64)
   \<and> length [4611686018427387904, 9223372036854775808, 13835058055282163712 :: u64]
       = unat (2 :: u64) + 1
   \<and> \<not> ((1 :: u64) \<le> 0 \<and> (0 :: u64) < 1 + 2)
   \<and> lwma_L [4611686018427387904, 9223372036854775808, 13835058055282163712]
         4611686018427387904 2 = 0
   \<and> LWMA1 [4611686018427387904, 9223372036854775808, 13835058055282163712] [0, 1, 2]
         4611686018427387904 2 0 1 5 = Inl Division_By_Zero
   \<and> 1 \<le> unat (9223372036854775808 :: u64)
   \<and> solve_time 9223372036854775808 0 (this_timestamp_of 0 5) = 0"
proof -
  have L: "lwma_L [4611686018427387904, 9223372036854775808, 13835058055282163712]
              4611686018427387904 2 = 0"
    unfolding lwma_L_def unat_2_Suc by (simp add: this_timestamp_of_def solve_time_def)
  have D: "LWMA1 [4611686018427387904, 9223372036854775808, 13835058055282163712] [0, 1, 2]
              4611686018427387904 2 0 1 5 = Inl Division_By_Zero"
    by (simp add: LWMA1_def L)
  have S: "solve_time 9223372036854775808 0 (this_timestamp_of 0 5) = 0"
    by (simp add: this_timestamp_of_def solve_time_def)
  show ?thesis by (simp add: L D S)
qed












end
